theory Spec2Isabelle
  imports Complex_Main "HOL-Library.Signed_Division"
begin

section \<open>The Pruner of fplll (pruner.h), embedded in HOL\<close>

text \<open>
  The class \<open>Pruner<FT>\<close> is generic in its scalar type \<open>FT\<close>. The embedding takes
  \<open>FT\<close> to be the real numbers: arithmetic is exact, comparisons are total, and the
  conversion \<open>get_d\<close> to a native double is the identity. C \<open>int\<close>s are HOL integers
  (the dimensions are at most \<open>PRUNER_MAX_N\<close>, far from overflow), \<open>/\<close> and \<open>%\<close> on
  them are \<open>sdiv\<close> and \<open>smod\<close> (truncation towards zero). An array
  (\<open>std::array<FT, N>\<close>, \<open>double*\<close>) is the function from its index to its cell, so
  that an index expression such as \<open>b[d - 1]\<close> means the same cell in the model as in
  the source for every value of \<open>d\<close>; the fixed capacities \<open>PRUNER_MAX_D\<close> and
  \<open>PRUNER_MAX_N\<close> of the arrays are not part of the model.
\<close>

type_synonym vec = "int \<Rightarrow> real"
type_synonym evec = "int \<Rightarrow> real"
type_synonym poly = "int \<Rightarrow> real"

definition PRUNER_MAX_D :: int where
  "PRUNER_MAX_D = 1023"

definition PRUNER_MAX_N :: int where
  "PRUNER_MAX_N = 2047"

subsection \<open>Loops\<close>

text \<open>
  \<open>for (int i = lo; i < hi; ++i) body\<close> and \<open>for (int i = hi; i >= lo; --i) body\<close>,
  over the variables \<open>s\<close> that the body updates.
\<close>

function for_up :: "int \<Rightarrow> int \<Rightarrow> (int \<Rightarrow> 's \<Rightarrow> 's) \<Rightarrow> 's \<Rightarrow> 's" where
  "for_up i hi body s = (if i < hi then for_up (i + 1) hi body (body i s) else s)"
  by pat_completeness auto
termination
  by (relation "measure (\<lambda>(i, hi, body, s). nat (hi - i))") auto

function for_down :: "int \<Rightarrow> int \<Rightarrow> (int \<Rightarrow> 's \<Rightarrow> 's) \<Rightarrow> 's \<Rightarrow> 's" where
  "for_down i lo body s = (if i \<ge> lo then for_down (i - 1) lo body (body i s) else s)"
  by pat_completeness auto
termination
  by (relation "measure (\<lambda>(i, lo, body, s). nat (i - lo + 1))") auto

declare for_up.simps [simp del] for_down.simps [simp del]

subsection \<open>The class and its errors\<close>

record Pruner =
  preproc_cost :: real
  target_success_proba :: real
  enumeration_radius :: real
  n :: int
  d :: int
  r :: vec
  pv :: vec
  renormalization_factor :: real
  tabulated_factorial :: "int \<Rightarrow> real"
  tabulated_ball_vol :: "int \<Rightarrow> real"
  one :: real
  minus_one :: real
  epsilon :: real
  min_step :: real
  min_cf_decrease :: real
  step_factor :: real
  shell_ratio :: real
  symmetry_factor :: real

text \<open>
  The three \<open>std::runtime_error\<close>s of the file, by their messages:
  "Needs a dimension n>1", "No basis loaded" and "Ill formed pruning coefficients".
\<close>

datatype error = DimensionTooSmall | BasisNotLoaded | InfeasibleCoefficients

text \<open>
  A local array that the source declares without initialising it (\<open>evec b;\<close>,
  \<open>poly P;\<close>, \<open>vec rv;\<close>) starts as \<open>uninitialised\<close> inside the private
  methods. The public methods take the contents of their local \<open>evec b\<close> as the
  argument \<open>b0\<close>, and the constructor takes the object it initialises.
\<close>

definition uninitialised :: "int \<Rightarrow> real" where
  "uninitialised = (\<lambda>_. 0)"

subsection \<open>Constant tables\<close>

text \<open>
  Modelled from the spec: the file \<open>factorial.const\<close> (the table \<open>pre_factorial\<close>) is
  not part of the sources at hand; the spec gives \<open>factorial[i] = i!\<close>.
\<close>

definition pre_factorial :: "int \<Rightarrow> real" where
  "pre_factorial i = fact (nat i)"

text \<open>
  Modelled from the spec: the file \<open>ballvol.const\<close> (the table \<open>pre_ball_vol\<close>) is not
  part of the sources at hand; the spec gives \<open>unit_ball_volume[i]\<close>, the volume of the
  unit ball of dimension \<open>i\<close>: 1, 2, and \<open>2 \<pi> / i\<close> times the volume two dimensions
  below.
\<close>

fun unit_ball_volume :: "nat \<Rightarrow> real" where
  "unit_ball_volume 0 = 1"
| "unit_ball_volume (Suc 0) = 2"
| "unit_ball_volume (Suc (Suc k)) = 2 * pi / real (Suc (Suc k)) * unit_ball_volume k"

definition pre_ball_vol :: "int \<Rightarrow> real" where
  "pre_ball_vol i = unit_ball_volume (nat i)"

definition set_tabulated_consts :: "Pruner \<Rightarrow> Pruner" where
  "set_tabulated_consts p =
     for_up 0 PRUNER_MAX_N
       (\<lambda>i p. p\<lparr>tabulated_factorial := (tabulated_factorial p)(i := pre_factorial i),
                tabulated_ball_vol := (tabulated_ball_vol p)(i := pre_ball_vol i)\<rparr>) p"

subsection \<open>Constructor and basis shape\<close>

definition Pruner_ctor :: "Pruner \<Rightarrow> Pruner" where
  "Pruner_ctor p =
     (let p = p\<lparr>n := 0\<rparr>;
          p = p\<lparr>d := 0\<rparr>;
          p = set_tabulated_consts p;
          p = p\<lparr>epsilon := 2 powr (- 13)\<rparr>;
          p = p\<lparr>min_step := 2 powr (- 12)\<rparr>;
          p = p\<lparr>step_factor := 2 powr (1 / 2)\<rparr>;
          p = p\<lparr>shell_ratio := 995 / 1000\<rparr>;
          p = p\<lparr>minus_one := - 1\<rparr>;
          p = p\<lparr>one := 1\<rparr>;
          p = p\<lparr>preproc_cost := 0\<rparr>;
          p = p\<lparr>enumeration_radius := 0\<rparr>;
          p = p\<lparr>target_success_proba := 90 / 100\<rparr>;
          p = p\<lparr>preproc_cost := 0\<rparr>;
          p = p\<lparr>min_cf_decrease := 9999 / 10000\<rparr>;
          p = p\<lparr>symmetry_factor := 2\<rparr>
      in p)"

text \<open>
  \<open>load_basis_shape(int dim, double* gso_sq_norms)\<close>. The overload that reads a
  \<open>MatGSO\<close> runs the same statements on the diagonal of the Gram-Schmidt matrix.
  When the method throws, the model returns the error alone (the object, with \<open>n\<close>
  and \<open>d\<close> already assigned, is not used afterwards).
\<close>

definition load_basis_shape :: "Pruner \<Rightarrow> int \<Rightarrow> (int \<Rightarrow> real) \<Rightarrow> error + Pruner" where
  "load_basis_shape p dim' gso_sq_norms =
     (let p = p\<lparr>n := dim'\<rparr>;
          p = p\<lparr>d := n p sdiv 2\<rparr>
      in if d p = 0 then Inl DimensionTooSmall
         else
           let (rr, logvol) =
                 for_up 0 (n p)
                   (\<lambda>i (rr, logvol).
                      let rr = rr(i := gso_sq_norms (n p - 1 - i))
                      in (rr, logvol + ln (rr i)))
                   (r p, 0);
               tmp = - real_of_int (n p);
               renorm = exp (logvol / tmp);
               rr = for_up 0 (n p) (\<lambda>i rr. rr(i := rr i * renorm)) rr;
               (pvv, tmp) =
                 for_up 0 (2 * d p)
                   (\<lambda>i (pvv, tmp). let tmp = tmp * sqrt (rr i) in (pvv(i := tmp), tmp))
                   (pv p, 1)
           in Inr (p\<lparr>r := rr, pv := pvv, renormalization_factor := renorm\<rparr>))"

definition check_loaded_basis :: "Pruner \<Rightarrow> error + int" where
  "check_loaded_basis p = (if d p \<noteq> 0 then Inr 0 else Inl BasisNotLoaded)"

subsection \<open>The projection \<open>enforce\<close>\<close>

text \<open>The bodies of the three loops of \<open>enforce\<close>, on the pair of \<open>b\<close> and \<open>status\<close>.\<close>

definition enforce_clamp :: "int \<Rightarrow> evec \<times> int \<Rightarrow> evec \<times> int" where
  "enforce_clamp i s =
     (let (b, status) = s;
          (b, status) = (if b i > 1 then (b(i := 1), 1) else (b, status));
          b = (if b i \<le> 1 / 10 then b(i := 1 / 10) else b)
      in (b, status))"

definition enforce_right :: "int \<Rightarrow> evec \<times> int \<Rightarrow> evec \<times> int" where
  "enforce_right i s =
     (let (b, status) = s
      in if b (i + 1) < b i then (b(i + 1 := b i), 1) else (b, status))"

definition enforce_left :: "int \<Rightarrow> evec \<times> int \<Rightarrow> evec \<times> int" where
  "enforce_left i s =
     (let (b, status) = s
      in if b (i + 1) < b i then (b(i := b (i + 1)), 1) else (b, status))"

definition enforce :: "Pruner \<Rightarrow> evec \<Rightarrow> int \<Rightarrow> evec \<times> int" where
  "enforce p b j =
     (let status = (if b (d p - 1) < 1 then 1 else 0);
          b = b(d p - 1 := 1);
          s = for_up 0 (d p) enforce_clamp (b, status);
          s = for_up j (d p - 1) enforce_right s;
          s = for_down (j - 1) 0 enforce_left s
      in s)"

subsection \<open>Coefficient arrays\<close>

definition load_prunning_coeffs :: "Pruner \<Rightarrow> (int \<Rightarrow> real) \<Rightarrow> evec \<Rightarrow> error + evec" where
  "load_prunning_coeffs p pr b =
     (let b = for_up 0 (d p) (\<lambda>i b. b(i := pr (n p - 1 - 2 * i))) b;
          (b, status) = enforce p b 0
      in if status \<noteq> 0 then Inl InfeasibleCoefficients else Inr b)"

definition save_prunning_coeffs :: "Pruner \<Rightarrow> (int \<Rightarrow> real) \<Rightarrow> evec \<Rightarrow> (int \<Rightarrow> real)" where
  "save_prunning_coeffs p pr b =
     (let pr = for_up 0 (d p)
                 (\<lambda>i pr. let pr = pr(n p - 1 - 2 * i := b i);
                              pr = pr(n p - 2 - 2 * i := b i)
                          in pr) pr
      in pr(0 := 1))"

definition init_prunning_coeffs :: "Pruner \<Rightarrow> evec \<Rightarrow> evec" where
  "init_prunning_coeffs p b =
     (let b = for_up 0 (d p)
                (\<lambda>i b. b(i := 1 / 10 + (1 * real_of_int i) / real_of_int (d p))) b
      in fst (enforce p b 0))"

subsection \<open>Polynomials and volumes\<close>

definition eval_poly :: "int \<Rightarrow> poly \<Rightarrow> real \<Rightarrow> real" where
  "eval_poly ld P x =
     for_down ld 0 (\<lambda>i acc. let acc = acc * x in acc + P i) 0"

definition integrate_poly :: "int \<Rightarrow> poly \<Rightarrow> poly" where
  "integrate_poly ld P =
     (let P = for_down ld 0
                (\<lambda>i P. let tmp = real_of_int i + 1 in P(i + 1 := P i / tmp)) P
      in P(0 := 0))"

definition relative_volume_step :: "Pruner \<Rightarrow> int \<Rightarrow> evec \<Rightarrow> int \<Rightarrow> poly \<times> int \<Rightarrow> poly \<times> int" where
  "relative_volume_step p rd b i s =
     (let (P, ld) = s;
          P = integrate_poly ld P;
          ld = ld + 1;
          P = P(0 := minus_one p * eval_poly ld P (b i / b (rd - 1)))
      in (P, ld))"

definition relative_volume :: "Pruner \<Rightarrow> int \<Rightarrow> evec \<Rightarrow> real" where
  "relative_volume p rd b =
     (let P = uninitialised(0 := 1);
          ld = 0;
          (P, ld) = for_down (rd - 1) 0 (relative_volume_step p rd b) (P, ld)
      in if rd smod 2 \<noteq> 0 then minus_one p * P 0 * tabulated_factorial p rd
         else P 0 * tabulated_factorial p rd)"

definition cost :: "Pruner \<Rightarrow> evec \<Rightarrow> real" where
  "cost p b =
     (let rv = for_up 0 (d p) (\<lambda>i rv. rv(2 * i + 1 := relative_volume p (i + 1) b))
                 uninitialised;
          rv = rv(0 := 1);
          rv = for_up 1 (d p) (\<lambda>i rv. rv(2 * i := sqrt (rv (2 * i - 1) * rv (2 * i + 1)))) rv;
          total = 0;
          normalized_radius = sqrt (enumeration_radius p * renormalization_factor p);
          total = for_up 0 (2 * d p)
                    (\<lambda>i total.
                       let tmp = normalized_radius powi (1 + i) * rv i *
                                 tabulated_ball_vol p (i + 1) *
                                 sqrt (b (i sdiv 2) powi (1 + i)) / pv p i
                       in total + tmp) total
      in total / symmetry_factor p)"

definition svp_success_proba :: "Pruner \<Rightarrow> evec \<Rightarrow> real" where
  "svp_success_proba p b =
     (let dx = shell_ratio p;
          b_minus_db = for_up 0 (d p)
                         (\<lambda>i bm. let bm = bm(i := b i / (dx * dx))
                                  in if bm i > 1 then bm(i := 1) else bm) uninitialised;
          vol = relative_volume p (d p) b;
          dxn = dx powi (2 * d p);
          dvol = dxn * relative_volume p (d p) b_minus_db - vol
      in dvol / (dxn - 1))"

definition cost_factor :: "Pruner \<Rightarrow> evec \<Rightarrow> real" where
  "cost_factor p b =
     (let success_proba = svp_success_proba p b
      in if success_proba \<ge> target_success_proba p then cost p b
         else
           let trials = ln (one p - target_success_proba p) / ln (one p - success_proba)
           in cost p b * trials + preproc_cost p * (trials - 1))"

subsection \<open>Gradient and descent\<close>

text \<open>
  \<open>cost_factor_derivative\<close> is declared to return an \<open>FT\<close> but has no return
  statement, and its only caller ignores the value: the method is modelled by the
  output array \<open>res\<close> it fills.
\<close>

definition cost_factor_derivative :: "Pruner \<Rightarrow> evec \<Rightarrow> evec \<Rightarrow> evec" where
  "cost_factor_derivative p b res =
     (let res = res(d p - 1 := 0)
      in for_up 0 (d p - 1)
           (\<lambda>i res.
              let bpDb = b;
                  bpDb = bpDb(i := bpDb i * (one p - epsilon p));
                  bpDb = fst (enforce p bpDb i);
                  X = cost_factor p bpDb;
                  bpDb = b;
                  bpDb = bpDb(i := bpDb i * (one p + epsilon p));
                  bpDb = fst (enforce p bpDb i);
                  Y = cost_factor p bpDb
              in res(i := (ln X - ln Y) / epsilon p)) res)"

text \<open>
  The line search of \<open>improve\<close>, \<open>for (i = 0;; ++i)\<close>, has no bound: it returns
  \<open>None\<close> when it runs forever, and otherwise the counter, \<open>b\<close> and \<open>cf\<close> at the
  \<open>break\<close>.
\<close>

partial_function (option) improve_loop ::
  "Pruner \<Rightarrow> evec \<Rightarrow> int \<Rightarrow> evec \<Rightarrow> evec \<Rightarrow> real \<Rightarrow> real \<Rightarrow> (int \<times> evec \<times> real) option" where
  "improve_loop p gradient i newb b cf step =
     (let newb = for_up 0 (d p) (\<lambda>i newb. newb(i := newb i + step * gradient i)) newb;
          newb = fst (enforce p newb 0);
          new_cf = cost_factor p newb
      in if new_cf \<ge> cf then Some (i, b, cf)
         else improve_loop p gradient (i + 1) newb newb new_cf (step * step_factor p))"

text \<open>\<open>improve\<close> returns the updated \<open>b\<close> with its \<open>int\<close> result.\<close>

definition improve :: "Pruner \<Rightarrow> evec \<Rightarrow> (evec \<times> int) option" where
  "improve p b =
     (let cf = cost_factor p b;
          old_cf = cf;
          gradient = cost_factor_derivative p b uninitialised;
          (norm, newb) = for_up 0 (d p)
                           (\<lambda>i (norm, newb). (norm + gradient i * gradient i, newb(i := b i)))
                           (0, uninitialised);
          norm = sqrt (norm / (one p * (1 * real_of_int (d p))))
      in if norm \<le> 0 then Some (b, 0)
         else
           let gradient = for_up 0 (d p) (\<lambda>i g. g(i := g i / norm)) gradient
           in case improve_loop p gradient 0 newb b cf (min_step p) of
                None \<Rightarrow> None
              | Some (i, b, cf) \<Rightarrow>
                  if cf > old_cf * min_cf_decrease p then Some (b, 0) else Some (b, i))"

partial_function (option) descent :: "Pruner \<Rightarrow> evec \<Rightarrow> evec option" where
  "descent p b =
     (case improve p b of
        None \<Rightarrow> None
      | Some (b, k) \<Rightarrow> if k \<noteq> 0 then descent p b else Some b)"

subsection \<open>Public methods\<close>

definition get_svp_success_proba :: "Pruner \<Rightarrow> evec \<Rightarrow> (int \<Rightarrow> real) \<Rightarrow> error + real" where
  "get_svp_success_proba p b0 pr =
     (case load_prunning_coeffs p pr b0 of
        Inl e \<Rightarrow> Inl e
      | Inr b \<Rightarrow> Inr (svp_success_proba p b))"

definition get_enum_cost :: "Pruner \<Rightarrow> evec \<Rightarrow> (int \<Rightarrow> real) \<Rightarrow> error + real" where
  "get_enum_cost p b0 pr =
     (case load_prunning_coeffs p pr b0 of
        Inl e \<Rightarrow> Inl e
      | Inr b \<Rightarrow> Inr (cost p b))"

definition get_enum_cost_with_retrials :: "Pruner \<Rightarrow> evec \<Rightarrow> (int \<Rightarrow> real) \<Rightarrow> error + real" where
  "get_enum_cost_with_retrials p b0 pr =
     (case load_prunning_coeffs p pr b0 of
        Inl e \<Rightarrow> Inl e
      | Inr b \<Rightarrow> Inr (cost_factor p b))"

text \<open>
  \<open>optimize_pruning_coeffs\<close> returns the array \<open>pr\<close> it has written, or the error
  thrown while loading it; \<open>None\<close> when the descent runs forever. The free function
  \<open>auto_prune\<close> calls \<open>load_basis_shape\<close> without an object and is not modelled.
\<close>

definition optimize_pruning_coeffs ::
  "Pruner \<Rightarrow> evec \<Rightarrow> (int \<Rightarrow> real) \<Rightarrow> int \<Rightarrow> (error + (int \<Rightarrow> real)) option" where
  "optimize_pruning_coeffs p b0 pr reset =
     (case (if reset \<noteq> 0 then Inr (init_prunning_coeffs p b0)
            else load_prunning_coeffs p pr b0) of
        Inl e \<Rightarrow> Some (Inl e)
      | Inr b \<Rightarrow>
          (case descent p b of
             None \<Rightarrow> None
           | Some b \<Rightarrow> Some (Inr (save_prunning_coeffs p pr b))))"

section \<open>Properties\<close>

subsection \<open>Predicates and example data\<close>

text \<open>The three feasibility invariants of a compact coefficient vector.\<close>

definition feasible :: "Pruner \<Rightarrow> evec \<Rightarrow> bool" where
  "feasible p b \<longleftrightarrow>
     b (d p - 1) = 1 \<and>
     (\<forall>i. 0 \<le> i \<and> i < d p \<longrightarrow> 1 / 10 \<le> b i \<and> b i \<le> 1) \<and>
     (\<forall>i. 0 \<le> i \<and> i < d p - 1 \<longrightarrow> b i \<le> b (i + 1))"

text \<open>What one round of the clamp loop makes of a cell.\<close>

definition clampv :: "real \<Rightarrow> real" where
  "clampv x = (if x > 1 then 1 else if x \<le> 1 / 10 then 1 / 10 else x)"

text \<open>The vector and the status after the pin and the clamp loop of \<open>enforce\<close>.\<close>

definition pinned_clamped :: "Pruner \<Rightarrow> evec \<Rightarrow> evec" where
  "pinned_clamped p b =
     (\<lambda>m. if 0 \<le> m \<and> m < d p then clampv ((b(d p - 1 := 1)) m) else (b(d p - 1 := 1)) m)"

definition pinned_status :: "Pruner \<Rightarrow> evec \<Rightarrow> int" where
  "pinned_status p b =
     (if \<exists>m. 0 \<le> m \<and> m < d p \<and> (b(d p - 1 := 1)) m > 1 then 1
      else if b (d p - 1) < 1 then 1 else 0)"

text \<open>
  Invariants of the two sweeps of \<open>enforce\<close> with pivot \<open>j\<close>, started on \<open>(b, st)\<close>,
  when the loop counter stands at \<open>k\<close> and the loop variables are \<open>t\<close>.
\<close>

definition right_inv :: "int \<Rightarrow> evec \<Rightarrow> int \<Rightarrow> int \<Rightarrow> evec \<times> int \<Rightarrow> bool" where
  "right_inv j b st k t \<longleftrightarrow>
     (\<forall>m. m \<le> j \<or> k < m \<longrightarrow> fst t m = b m) \<and>
     (\<forall>m. j \<le> m \<and> m < k \<longrightarrow> fst t m \<le> fst t (m + 1)) \<and>
     (\<forall>m. j \<le> m \<and> m \<le> k \<longrightarrow> b m \<le> fst t m \<and> (\<exists>l. j \<le> l \<and> l \<le> m \<and> fst t m = b l)) \<and>
     (snd t = 1 \<or> t = (b, st)) \<and>
     ((\<forall>m. j \<le> m \<and> m < k \<longrightarrow> b m \<le> b (m + 1)) \<longrightarrow> t = (b, st))"

definition left_inv :: "int \<Rightarrow> evec \<Rightarrow> int \<Rightarrow> int \<Rightarrow> evec \<times> int \<Rightarrow> bool" where
  "left_inv j b st k t \<longleftrightarrow>
     (\<forall>m. m \<le> k \<or> j \<le> m \<longrightarrow> fst t m = b m) \<and>
     (\<forall>m. k < m \<and> m < j \<longrightarrow> fst t m \<le> fst t (m + 1)) \<and>
     (\<forall>m. k < m \<and> m \<le> j \<longrightarrow> fst t m \<le> b m \<and> (\<exists>l. m \<le> l \<and> l \<le> j \<and> fst t m = b l)) \<and>
     (snd t = 1 \<or> t = (b, st)) \<and>
     ((\<forall>m. k < m \<and> m < j \<longrightarrow> b m \<le> b (m + 1)) \<longrightarrow> t = (b, st))"

text \<open>
  Example objects: the memory a Pruner is constructed in, a freshly constructed
  Pruner, and Pruners loaded with the all-ones basis shape of dimension 2 and 4.
\<close>

definition blank_pruner :: Pruner where
  "blank_pruner =
     \<lparr>preproc_cost = 0, target_success_proba = 0, enumeration_radius = 0, n = 0, d = 0,
      r = uninitialised, pv = uninitialised, renormalization_factor = 0,
      tabulated_factorial = uninitialised, tabulated_ball_vol = uninitialised,
      one = 0, minus_one = 0, epsilon = 0, min_step = 0, min_cf_decrease = 0,
      step_factor = 0, shell_ratio = 0, symmetry_factor = 0\<rparr>"

definition new_pruner :: Pruner where
  "new_pruner = Pruner_ctor blank_pruner"

definition ones :: "int \<Rightarrow> real" where
  "ones = (\<lambda>_. 1)"

definition loaded_pruner :: "int \<Rightarrow> Pruner" where
  "loaded_pruner dim' =
     (case load_basis_shape (new_pruner\<lparr>enumeration_radius := 1\<rparr>) dim' ones of
        Inr p \<Rightarrow> p
      | Inl e \<Rightarrow> new_pruner)"

definition b_example :: evec where
  "b_example = (\<lambda>i. if i = 0 then 5 else 0)"

text \<open>
  The compact vector that \<open>load_prunning_coeffs\<close> reads out of \<open>pr\<close>,
  \<open>b[i] = pr[n - 1 - 2 i]\<close> for \<open>i\<close> in \<open>[0, d)\<close>, in the words of the specification;
  the other cells are those of the local array.
\<close>

definition extracted :: "Pruner \<Rightarrow> (int \<Rightarrow> real) \<Rightarrow> evec \<Rightarrow> evec" where
  "extracted p pr b0 = (\<lambda>i. if 0 \<le> i \<and> i < d p then pr (n p - 1 - 2 * i) else b0 i)"

text \<open>A compact vector with its entries below 0.1 raised to 0.1.\<close>

definition raised :: "Pruner \<Rightarrow> evec \<Rightarrow> evec" where
  "raised p b = (\<lambda>i. if 0 \<le> i \<and> i < d p then max (1 / 10) (b i) else b i)"

text \<open>The coefficient array \<open>[1, 1, 0.05, 0.05]\<close>, for dimension 4.\<close>

definition pr_low :: "int \<Rightarrow> real" where
  "pr_low = (\<lambda>i. if i < 2 then 1 else 5 / 100)"

text \<open>The coefficient array \<open>[1, 0.5, 0.6, 0.5]\<close>, for dimension 4.\<close>

definition pr_not_monotone :: "int \<Rightarrow> real" where
  "pr_not_monotone = (\<lambda>i. if i = 0 then 1 else if i = 2 then 6 / 10 else 5 / 10)"

text \<open>The coefficient of \<open>x\<^sup>i\<close> in the polynomial \<open>(x - 1)\<^sup>m / m!\<close>.\<close>

definition alt_coeff :: "nat \<Rightarrow> nat \<Rightarrow> real" where
  "alt_coeff m i = (- 1) ^ (m - i) / (fact i * fact (m - i))"

text \<open>The Pruner of dimension 2 with the public field \<open>enumeration_radius\<close> set to 4.\<close>

definition pruner_radius_4 :: Pruner where
  "pruner_radius_4 = (loaded_pruner 2)\<lparr>enumeration_radius := 4\<rparr>"

text \<open>
  A Pruner of dimension 4 whose tables make the cost factor of \<open>b\<close> equal to
  \<open>\<surd>b[0]\<close> (the factorial table is zero, so that every relative volume and the
  success probability are 0, and the target probability is 0), with step sizes that
  make the line search of \<open>improve\<close> short; and two compact vectors for it.
\<close>

definition toy_pruner :: Pruner where
  "toy_pruner =
     \<lparr>preproc_cost = 0, target_success_proba = 0, enumeration_radius = 1, n = 4, d = 2,
      r = ones, pv = ones, renormalization_factor = 1,
      tabulated_factorial = uninitialised, tabulated_ball_vol = ones,
      one = 1, minus_one = - 1, epsilon = 1 / 2, min_step = 1, min_cf_decrease = 1,
      step_factor = 1, shell_ratio = 1 / 2, symmetry_factor = 1\<rparr>"

definition b_start :: evec where
  "b_start = uninitialised(0 := 4 / 10, 1 := 1)"

definition b_end :: evec where
  "b_end = uninitialised(0 := 1 / 10, 1 := 1)"

subsection \<open>Loop rules\<close>

lemma for_up_rule:
  assumes "I i s"
    and "\<And>k t. i \<le> k \<Longrightarrow> k < hi \<Longrightarrow> I k t \<Longrightarrow> I (k + 1) (body k t)"
  shows "I (max i hi) (for_up i hi body s)"
  using assms
proof (induction i hi body s rule: for_up.induct)
  case (1 i hi body s)
  show ?case
  proof (cases "i < hi")
    case True
    have "I (max (i + 1) hi) (for_up (i + 1) hi body (body i s))"
      using True "1.prems" by (intro "1.IH") auto
    then show ?thesis using True by (simp add: for_up.simps [of i] max_def)
  next
    case False
    then show ?thesis using "1.prems"(1) by (simp add: for_up.simps [of i] max_def)
  qed
qed

lemma for_down_rule:
  assumes "I i s"
    and "\<And>k t. lo \<le> k \<Longrightarrow> k \<le> i \<Longrightarrow> I k t \<Longrightarrow> I (k - 1) (body k t)"
  shows "I (min i (lo - 1)) (for_down i lo body s)"
  using assms
proof (induction i lo body s rule: for_down.induct)
  case (1 i lo body s)
  show ?case
  proof (cases "lo \<le> i")
    case True
    have "I (min (i - 1) (lo - 1)) (for_down (i - 1) lo body (body i s))"
      using True "1.prems" by (intro "1.IH") auto
    moreover have "min (i - 1) (lo - 1) = lo - 1" "min i (lo - 1) = lo - 1"
      using True by simp_all
    ultimately show ?thesis using True by (simp add: for_down.simps [of i])
  next
    case False
    then show ?thesis using "1.prems"(1) by (simp add: for_down.simps [of i] min_def)
  qed
qed

lemma clamp_loop:
  assumes "0 \<le> dd"
  shows "for_up 0 dd enforce_clamp (b, st) =
    ((\<lambda>m. if 0 \<le> m \<and> m < dd then clampv (b m) else b m),
     (if \<exists>m. 0 \<le> m \<and> m < dd \<and> b m > 1 then 1 else st))"
proof -
  let ?I = "\<lambda>k t. t = ((\<lambda>m. if 0 \<le> m \<and> m < k then clampv (b m) else b m),
     (if \<exists>m. 0 \<le> m \<and> m < k \<and> b m > 1 then 1 else st))"
  have "?I (max 0 dd) (for_up 0 dd enforce_clamp (b, st))"
  proof (rule for_up_rule [where I = ?I])
    show "?I 0 (b, st)" by auto
  next
    fix k t assume k: "0 \<le> k" "k < dd" and t: "?I k t"
    have ex: "(\<exists>m. 0 \<le> m \<and> m < k + 1 \<and> b m > 1) \<longleftrightarrow> (\<exists>m. 0 \<le> m \<and> m < k \<and> b m > 1) \<or> b k > 1"
      using k by (metis add.commute less_le zless_add1_eq)
    show "?I (k + 1) (enforce_clamp k t)"
      unfolding t ex using k
      by (auto simp: enforce_clamp_def clampv_def fun_eq_iff)
  qed
  then show ?thesis using assms by (simp add: max_def)
qed


lemma right_inv_step:
  assumes k: "j \<le> k" and inv: "right_inv j b st k t"
  shows "right_inv j b st (k + 1) (enforce_right k t)"
proof (cases "fst t (k + 1) < fst t k")
  case False
  then have eq: "enforce_right k t = t"
    by (simp add: enforce_right_def case_prod_beta)
  have next_cell: "fst t (k + 1) = b (k + 1)"
    using inv by (simp add: right_inv_def)
  have "\<forall>m. j \<le> m \<and> m < k + 1 \<longrightarrow> fst t m \<le> fst t (m + 1)"
  proof (intro allI impI)
    fix m assume "j \<le> m \<and> m < k + 1"
    then consider "m < k" "j \<le> m" | "m = k" by linarith
    then show "fst t m \<le> fst t (m + 1)"
      using inv False by cases (auto simp: right_inv_def)
  qed
  moreover have "\<forall>m. j \<le> m \<and> m \<le> k + 1 \<longrightarrow> b m \<le> fst t m \<and> (\<exists>l. j \<le> l \<and> l \<le> m \<and> fst t m = b l)"
  proof (intro allI impI)
    fix m assume m: "j \<le> m \<and> m \<le> k + 1"
    then consider "m \<le> k" "j \<le> m" | "m = k + 1" by linarith
    then show "b m \<le> fst t m \<and> (\<exists>l. j \<le> l \<and> l \<le> m \<and> fst t m = b l)"
    proof cases
      case 1
      then show ?thesis using inv by (simp add: right_inv_def)
    next
      case 2
      have "\<exists>l. j \<le> l \<and> l \<le> k + 1 \<and> b (k + 1) = b l"
        using k by (intro exI [of _ "k + 1"]) simp
      then show ?thesis using 2 next_cell by simp
    qed
  qed
  moreover have "(\<forall>m. j \<le> m \<and> m < k + 1 \<longrightarrow> b m \<le> b (m + 1)) \<longrightarrow> t = (b, st)"
    using inv by (simp add: right_inv_def)
  ultimately show ?thesis
    unfolding eq using inv by (simp add: right_inv_def)
next
  case True
  obtain b' st' where t: "t = (b', st')" by (cases t)
  from True t have eq: "enforce_right k t = (b'(k + 1 := b' k), 1)"
    by (simp add: enforce_right_def)
  have next_cell: "b' (k + 1) = b (k + 1)"
    using inv t by (simp add: right_inv_def)
  have frame: "\<forall>m. m \<le> j \<or> k < m \<longrightarrow> b' m = b m"
    and sorted: "\<forall>m. j \<le> m \<and> m < k \<longrightarrow> b' m \<le> b' (m + 1)"
    and range: "\<forall>m. j \<le> m \<and> m \<le> k \<longrightarrow> b m \<le> b' m \<and> (\<exists>l. j \<le> l \<and> l \<le> m \<and> b' m = b l)"
    and unch: "(\<forall>m. j \<le> m \<and> m < k \<longrightarrow> b m \<le> b (m + 1)) \<longrightarrow> b' = b"
    using inv t by (simp_all add: right_inv_def)
  have c1: "\<forall>m. m \<le> j \<or> k + 1 < m \<longrightarrow> (b'(k + 1 := b' k)) m = b m"
    using frame k by auto
  have c2: "\<forall>m. j \<le> m \<and> m < k + 1 \<longrightarrow> (b'(k + 1 := b' k)) m \<le> (b'(k + 1 := b' k)) (m + 1)"
  proof (intro allI impI)
    fix m assume "j \<le> m \<and> m < k + 1"
    then consider "m < k" "j \<le> m" | "m = k" by linarith
    then show "(b'(k + 1 := b' k)) m \<le> (b'(k + 1 := b' k)) (m + 1)"
      using sorted by cases auto
  qed
  have c3: "\<forall>m. j \<le> m \<and> m \<le> k + 1 \<longrightarrow>
      b m \<le> (b'(k + 1 := b' k)) m \<and> (\<exists>l. j \<le> l \<and> l \<le> m \<and> (b'(k + 1 := b' k)) m = b l)"
  proof (intro allI impI)
    fix m assume m: "j \<le> m \<and> m \<le> k + 1"
    then consider "m \<le> k" "j \<le> m" | "m = k + 1" by linarith
    then show "b m \<le> (b'(k + 1 := b' k)) m \<and> (\<exists>l. j \<le> l \<and> l \<le> m \<and> (b'(k + 1 := b' k)) m = b l)"
    proof cases
      case 1
      then show ?thesis using range by simp
    next
      case 2
      from range k obtain l where l: "j \<le> l" "l \<le> k" "b' k = b l" by blast
      have "b (k + 1) \<le> b' k" using True t next_cell by simp
      moreover have "\<exists>l. j \<le> l \<and> l \<le> k + 1 \<and> b' k = b l"
        using l by (intro exI [of _ l]) simp
      ultimately show ?thesis using 2 by simp
    qed
  qed
  have c5: "(\<forall>m. j \<le> m \<and> m < k + 1 \<longrightarrow> b m \<le> b (m + 1)) \<longrightarrow> False"
  proof
    assume a: "\<forall>m. j \<le> m \<and> m < k + 1 \<longrightarrow> b m \<le> b (m + 1)"
    then have "b' = b" using unch by simp
    moreover have "b k \<le> b (k + 1)" using a k by simp
    ultimately show False using True t by simp
  qed
  show ?thesis
    unfolding eq right_inv_def fst_conv snd_conv using c1 c2 c3 c5 by blast
qed

lemma right_loop:
  assumes "j \<le> hi"
  shows "right_inv j b st hi (for_up j hi enforce_right (b, st))"
proof -
  have "right_inv j b st (max j hi) (for_up j hi enforce_right (b, st))"
  proof (rule for_up_rule [where I = "right_inv j b st"])
    show "right_inv j b st j (b, st)"
      by (auto simp: right_inv_def intro: exI [of _ j]) 
  next
    fix k t assume "j \<le> k" "k < hi" "right_inv j b st k t"
    then show "right_inv j b st (k + 1) (enforce_right k t)"
      by (simp add: right_inv_step)
  qed
  then show ?thesis using assms by (simp add: max_def)
qed


lemma left_inv_step:
  assumes k: "k < j" and inv: "left_inv j b st k t"
  shows "left_inv j b st (k - 1) (enforce_left k t)"
proof (cases "fst t (k + 1) < fst t k")
  case False
  then have eq: "enforce_left k t = t"
    by (simp add: enforce_left_def case_prod_beta)
  have this_cell: "fst t k = b k"
    using inv by (simp add: left_inv_def)
  have "\<forall>m. k - 1 < m \<and> m < j \<longrightarrow> fst t m \<le> fst t (m + 1)"
  proof (intro allI impI)
    fix m assume "k - 1 < m \<and> m < j"
    then consider "k < m" "m < j" | "m = k" by linarith
    then show "fst t m \<le> fst t (m + 1)"
      using inv False by cases (auto simp: left_inv_def)
  qed
  moreover have "\<forall>m. k - 1 < m \<and> m \<le> j \<longrightarrow> fst t m \<le> b m \<and> (\<exists>l. m \<le> l \<and> l \<le> j \<and> fst t m = b l)"
  proof (intro allI impI)
    fix m assume m: "k - 1 < m \<and> m \<le> j"
    then consider "k < m" "m \<le> j" | "m = k" by linarith
    then show "fst t m \<le> b m \<and> (\<exists>l. m \<le> l \<and> l \<le> j \<and> fst t m = b l)"
    proof cases
      case 1
      then show ?thesis using inv by (simp add: left_inv_def)
    next
      case 2
      have "\<exists>l. k \<le> l \<and> l \<le> j \<and> b k = b l"
        using k by (intro exI [of _ k]) simp
      then show ?thesis using 2 this_cell by simp
    qed
  qed
  moreover have "(\<forall>m. k - 1 < m \<and> m < j \<longrightarrow> b m \<le> b (m + 1)) \<longrightarrow> t = (b, st)"
    using inv by (simp add: left_inv_def)
  ultimately show ?thesis
    unfolding eq using inv by (simp add: left_inv_def)
next
  case True
  obtain b' st' where t: "t = (b', st')" by (cases t)
  from True t have eq: "enforce_left k t = (b'(k := b' (k + 1)), 1)"
    by (simp add: enforce_left_def)
  have frame: "\<forall>m. m \<le> k \<or> j \<le> m \<longrightarrow> b' m = b m"
    and sorted: "\<forall>m. k < m \<and> m < j \<longrightarrow> b' m \<le> b' (m + 1)"
    and range: "\<forall>m. k < m \<and> m \<le> j \<longrightarrow> b' m \<le> b m \<and> (\<exists>l. m \<le> l \<and> l \<le> j \<and> b' m = b l)"
    and unch: "(\<forall>m. k < m \<and> m < j \<longrightarrow> b m \<le> b (m + 1)) \<longrightarrow> b' = b"
    using inv t by (simp_all add: left_inv_def)
  have this_cell: "b' k = b k" using frame by simp
  have c1: "\<forall>m. m \<le> k - 1 \<or> j \<le> m \<longrightarrow> (b'(k := b' (k + 1))) m = b m"
    using frame k by auto
  have c2: "\<forall>m. k - 1 < m \<and> m < j \<longrightarrow> (b'(k := b' (k + 1))) m \<le> (b'(k := b' (k + 1))) (m + 1)"
  proof (intro allI impI)
    fix m assume "k - 1 < m \<and> m < j"
    then consider "k < m" "m < j" | "m = k" by linarith
    then show "(b'(k := b' (k + 1))) m \<le> (b'(k := b' (k + 1))) (m + 1)"
      using sorted by cases auto
  qed
  have c3: "\<forall>m. k - 1 < m \<and> m \<le> j \<longrightarrow>
      (b'(k := b' (k + 1))) m \<le> b m \<and> (\<exists>l. m \<le> l \<and> l \<le> j \<and> (b'(k := b' (k + 1))) m = b l)"
  proof (intro allI impI)
    fix m assume m: "k - 1 < m \<and> m \<le> j"
    then consider "k < m" "m \<le> j" | "m = k" by linarith
    then show "(b'(k := b' (k + 1))) m \<le> b m \<and> (\<exists>l. m \<le> l \<and> l \<le> j \<and> (b'(k := b' (k + 1))) m = b l)"
    proof cases
      case 1
      then show ?thesis using range by simp
    next
      case 2
      from range [rule_format, of "k + 1"] k
      obtain l where l: "k + 1 \<le> l" "l \<le> j" "b' (k + 1) = b l" by auto
      have "b' (k + 1) \<le> b k" using True t this_cell by simp
      moreover have "\<exists>l. k \<le> l \<and> l \<le> j \<and> b' (k + 1) = b l"
        using l by (intro exI [of _ l]) simp
      ultimately show ?thesis using 2 by simp
    qed
  qed
  have c5: "(\<forall>m. k - 1 < m \<and> m < j \<longrightarrow> b m \<le> b (m + 1)) \<longrightarrow> False"
  proof
    assume a: "\<forall>m. k - 1 < m \<and> m < j \<longrightarrow> b m \<le> b (m + 1)"
    then have "b' = b" using unch by simp
    moreover have "b k \<le> b (k + 1)" using a k by simp
    ultimately show False using True t by simp
  qed
  show ?thesis
    unfolding eq left_inv_def fst_conv snd_conv using c1 c2 c3 c5 by blast
qed

lemma left_loop:
  assumes "0 \<le> j"
  shows "left_inv j b st (- 1) (for_down (j - 1) 0 enforce_left (b, st))"
proof -
  have "left_inv j b st (min (j - 1) (0 - 1)) (for_down (j - 1) 0 enforce_left (b, st))"
  proof (rule for_down_rule [where I = "left_inv j b st"])
    show "left_inv j b st (j - 1) (b, st)"
      by (auto simp: left_inv_def intro: exI [of _ j]) 
  next
    fix k t assume "0 \<le> k" "k \<le> j - 1" "left_inv j b st k t"
    then show "left_inv j b st (k - 1) (enforce_left k t)"
      by (simp add: left_inv_step)
  qed
  moreover have "min (j - 1) (0 - 1) = - 1" using assms by simp
  ultimately show ?thesis by simp
qed


lemma clampv_bounds: "1 / 10 \<le> clampv x" "clampv x \<le> 1"
  by (simp_all add: clampv_def)

lemma clampv_id: "1 / 10 \<le> x \<Longrightarrow> x \<le> 1 \<Longrightarrow> clampv x = x"
  by (simp add: clampv_def)

lemma clampv_max: "x \<le> 1 \<Longrightarrow> clampv x = max (1 / 10) x"
  by (simp add: clampv_def max_def)

lemma enforce_unfold:
  assumes "0 \<le> d p"
  shows "enforce p b j =
     for_down (j - 1) 0 enforce_left
       (for_up j (d p - 1) enforce_right (pinned_clamped p b, pinned_status p b))"
  using assms by (simp add: enforce_def Let_def clamp_loop pinned_clamped_def pinned_status_def)

lemma pinned_clamped_bounds:
  assumes "0 \<le> m" "m < d p"
  shows "1 / 10 \<le> pinned_clamped p b m" "pinned_clamped p b m \<le> 1"
  using assms clampv_bounds [of "(b(d p - 1 := 1)) m"]
  by (simp_all add: pinned_clamped_def del: fun_upd_apply)

lemma pinned_clamped_last:
  assumes "1 \<le> d p"
  shows "pinned_clamped p b (d p - 1) = 1"
  using assms by (simp add: pinned_clamped_def clampv_def)

lemma enforce_feasible:
  assumes dd: "1 \<le> d p" and j: "0 \<le> j" "j \<le> d p - 1"
  shows "feasible p (fst (enforce p b j))"
proof -
  define b2 where "b2 = pinned_clamped p b"
  define s3 where "s3 = for_up j (d p - 1) enforce_right (b2, pinned_status p b)"
  define s4 where "s4 = for_down (j - 1) 0 enforce_left s3"
  have e: "enforce p b j = s4"
    using dd by (simp add: enforce_unfold s4_def s3_def b2_def)
  have R: "right_inv j b2 (pinned_status p b) (d p - 1) s3"
    unfolding s3_def using j(2) by (rule right_loop)
  have L: "left_inv j (fst s3) (snd s3) (- 1) s4"
    unfolding s4_def using left_loop [OF j(1), of "fst s3" "snd s3"] by simp
  have b2: "1 / 10 \<le> b2 m \<and> b2 m \<le> 1" if "0 \<le> m" "m < d p" for m
    using that pinned_clamped_bounds [of m p b] by (simp add: b2_def)
  have b3_hi: "1 / 10 \<le> fst s3 m \<and> fst s3 m \<le> 1 \<and> b2 m \<le> fst s3 m" if "j \<le> m" "m < d p" for m
  proof -
    have "b2 m \<le> fst s3 m \<and> (\<exists>l. j \<le> l \<and> l \<le> m \<and> fst s3 m = b2 l)"
      using R that by (simp add: right_inv_def)
    then obtain l where "j \<le> l" "l \<le> m" "fst s3 m = b2 l" "b2 m \<le> fst s3 m"
      by blast
    then show ?thesis using b2 [of l] j that by simp
  qed
  have b3_lo: "fst s3 m = b2 m" if "m \<le> j" for m
    using R that by (simp add: right_inv_def)
  have b3: "1 / 10 \<le> fst s3 m \<and> fst s3 m \<le> 1" if "0 \<le> m" "m < d p" for m
    using b3_hi [of m] b3_lo [of m] b2 [of m] that by (cases "j \<le> m") auto
  have b4_hi: "fst s4 m = fst s3 m" if "j \<le> m" for m
    using L that by (simp add: left_inv_def)
  have b4_lo: "1 / 10 \<le> fst s4 m \<and> fst s4 m \<le> 1" if "0 \<le> m" "m \<le> j" for m
  proof -
    have "\<exists>l. m \<le> l \<and> l \<le> j \<and> fst s4 m = fst s3 l"
      using L that by (simp add: left_inv_def)
    then obtain l where "m \<le> l" "l \<le> j" "fst s4 m = fst s3 l"
      by blast
    then show ?thesis using b3 [of l] j that by simp
  qed
  have last: "fst s4 (d p - 1) = 1"
  proof -
    have "b2 (d p - 1) = 1" using dd by (simp add: b2_def pinned_clamped_last)
    then have "fst s3 (d p - 1) = 1"
      using b3_hi [of "d p - 1"] j by simp
    then show ?thesis using b4_hi [of "d p - 1"] j by simp
  qed
  have bounds: "1 / 10 \<le> fst s4 m \<and> fst s4 m \<le> 1" if "0 \<le> m" "m < d p" for m
    using b4_lo [of m] b4_hi [of m] b3 [of m] that by (cases "j \<le> m") auto
  have sorted: "fst s4 m \<le> fst s4 (m + 1)" if "0 \<le> m" "m < d p - 1" for m
  proof (cases "j \<le> m")
    case True
    then have "fst s3 m \<le> fst s3 (m + 1)"
      using R that by (simp add: right_inv_def)
    then show ?thesis using b4_hi [of m] b4_hi [of "m + 1"] True by simp
  next
    case False
    then show ?thesis using L that by (simp add: left_inv_def)
  qed
  show ?thesis
    unfolding e feasible_def using last bounds sorted by blast
qed

lemma enforce_fixed:
  assumes dd: "1 \<le> d p" and j: "0 \<le> j" "j \<le> d p - 1" and f: "feasible p b"
  shows "enforce p b j = (b, 0)"
proof -
  have pin: "b(d p - 1 := 1) = b"
    using f by (auto simp: feasible_def)
  have b2: "pinned_clamped p b = b"
    unfolding pinned_clamped_def pin using f by (auto simp: feasible_def clampv_id fun_eq_iff)
  have "\<not> (\<exists>m. 0 \<le> m \<and> m < d p \<and> b m > 1)"
    using f by (force simp: feasible_def)
  moreover have "\<not> b (d p - 1) < 1" using f by (simp add: feasible_def)
  ultimately have st2: "pinned_status p b = 0"
    unfolding pinned_status_def pin by simp
  have "right_inv j b 0 (d p - 1) (for_up j (d p - 1) enforce_right (b, 0))"
    using j by (intro right_loop) simp
  moreover have "\<forall>m. j \<le> m \<and> m < d p - 1 \<longrightarrow> b m \<le> b (m + 1)"
    using f j by (simp add: feasible_def)
  ultimately have s3: "for_up j (d p - 1) enforce_right (b, 0) = (b, 0)"
    unfolding right_inv_def by blast
  have "left_inv j b 0 (- 1) (for_down (j - 1) 0 enforce_left (b, 0))"
    using j by (intro left_loop) simp
  moreover have "\<forall>m. - 1 < m \<and> m < j \<longrightarrow> b m \<le> b (m + 1)"
    using f j by (simp add: feasible_def)
  ultimately have s4: "for_down (j - 1) 0 enforce_left (b, 0) = (b, 0)"
    unfolding left_inv_def by blast
  show ?thesis
    using dd by (simp add: enforce_unfold b2 st2 s3 s4)
qed

lemma enforce_pivot_kept:
  assumes dd: "2 \<le> d p" and j: "0 \<le> j" "j < d p - 1"
    and bj: "1 / 10 \<le> b j" "b j \<le> 1"
  shows "fst (enforce p b j) j = b j"
proof -
  define s3 where "s3 = for_up j (d p - 1) enforce_right (pinned_clamped p b, pinned_status p b)"
  have "pinned_clamped p b j = b j"
    using j bj by (simp add: pinned_clamped_def clampv_id)
  moreover have "right_inv j (pinned_clamped p b) (pinned_status p b) (d p - 1) s3"
    unfolding s3_def using j by (intro right_loop) simp
  then have "fst s3 j = pinned_clamped p b j"
    by (simp add: right_inv_def)
  moreover have "left_inv j (fst s3) (snd s3) (- 1) (for_down (j - 1) 0 enforce_left s3)"
    using left_loop [OF j(1), of "fst s3" "snd s3"] by simp
  then have "fst (for_down (j - 1) 0 enforce_left s3) j = fst s3 j"
    by (simp add: left_inv_def)
  ultimately show ?thesis
    using dd by (simp add: enforce_unfold s3_def)
qed

subsection \<open>The example Pruners\<close>

lemma set_tabulated_consts_eq:
  "set_tabulated_consts p =
     p\<lparr>tabulated_factorial :=
          (\<lambda>i. if 0 \<le> i \<and> i < PRUNER_MAX_N then pre_factorial i else tabulated_factorial p i),
       tabulated_ball_vol :=
          (\<lambda>i. if 0 \<le> i \<and> i < PRUNER_MAX_N then pre_ball_vol i else tabulated_ball_vol p i)\<rparr>"
proof -
  let ?I = "\<lambda>k t. t =
     p\<lparr>tabulated_factorial :=
          (\<lambda>i. if 0 \<le> i \<and> i < k then pre_factorial i else tabulated_factorial p i),
       tabulated_ball_vol :=
          (\<lambda>i. if 0 \<le> i \<and> i < k then pre_ball_vol i else tabulated_ball_vol p i)\<rparr>"
  have "?I (max 0 PRUNER_MAX_N) (set_tabulated_consts p)"
    unfolding set_tabulated_consts_def
  proof (rule for_up_rule [where I = ?I])
    show "?I 0 p" by (rule Pruner.equality) (auto simp: fun_eq_iff)
  next
    fix k t assume k: "0 \<le> k" "k < PRUNER_MAX_N" and t: "?I k t"
    show "?I (k + 1)
           (t\<lparr>tabulated_factorial := (tabulated_factorial t)(k := pre_factorial k),
              tabulated_ball_vol := (tabulated_ball_vol t)(k := pre_ball_vol k)\<rparr>)"
      unfolding t using k by (intro Pruner.equality) (auto simp: fun_eq_iff)
  qed
  then show ?thesis by (simp add: PRUNER_MAX_N_def)
qed

lemma new_pruner_fields:
  "n new_pruner = 0" "d new_pruner = 0"
  "shell_ratio new_pruner = 995 / 1000" "minus_one new_pruner = - 1" "one new_pruner = 1"
  "symmetry_factor new_pruner = 2" "target_success_proba new_pruner = 90 / 100"
  "preproc_cost new_pruner = 0" "enumeration_radius new_pruner = 0"
  "min_cf_decrease new_pruner = 9999 / 10000"
  by (simp_all add: new_pruner_def Pruner_ctor_def Let_def set_tabulated_consts_eq)

lemma new_pruner_tables:
  "0 \<le> i \<Longrightarrow> i < 2047 \<Longrightarrow> tabulated_factorial new_pruner i = pre_factorial i"
  "0 \<le> i \<Longrightarrow> i < 2047 \<Longrightarrow> tabulated_ball_vol new_pruner i = pre_ball_vol i"
  by (simp_all add: new_pruner_def Pruner_ctor_def Let_def set_tabulated_consts_eq PRUNER_MAX_N_def)

lemma load_basis_shape_fields:
  assumes "load_basis_shape p dim' g = Inr q"
  shows "n q = dim'" "d q = dim' sdiv 2" "d q \<noteq> 0"
    "shell_ratio q = shell_ratio p" "minus_one q = minus_one p" "one q = one p"
    "symmetry_factor q = symmetry_factor p" "tabulated_factorial q = tabulated_factorial p"
    "tabulated_ball_vol q = tabulated_ball_vol p"
    "enumeration_radius q = enumeration_radius p"
    "target_success_proba q = target_success_proba p" "preproc_cost q = preproc_cost p"
  using assms
  by (auto simp: load_basis_shape_def Let_def case_prod_beta split: if_splits)

lemma loaded_pruner_ok:
  assumes "dim' sdiv 2 \<noteq> 0"
  shows "load_basis_shape (new_pruner\<lparr>enumeration_radius := 1\<rparr>) dim' ones = Inr (loaded_pruner dim')"
  using assms
  by (simp add: loaded_pruner_def load_basis_shape_def Let_def case_prod_beta)

lemma loaded_pruner_2 [simp]: "n (loaded_pruner 2) = 2" "d (loaded_pruner 2) = 1"
  using load_basis_shape_fields(1,2) [OF loaded_pruner_ok [of 2]]
  by (simp_all add: signed_divide_int_def)

lemma loaded_pruner_4 [simp]: "n (loaded_pruner 4) = 4" "d (loaded_pruner 4) = 2"
  using load_basis_shape_fields(1,2) [OF loaded_pruner_ok [of 4]]
  by (simp_all add: signed_divide_int_def)

subsection \<open>Claims about \<open>enforce\<close>\<close>

text \<open>
  C2: for every compact coefficient vector \<open>b\<close> with arbitrary entries and every pivot
  \<open>j\<close> with \<open>0 \<le> j \<le> d - 1\<close> (\<open>d \<ge> 1\<close>), the vector that \<open>enforce(b, j)\<close> leaves
  satisfies the three feasibility invariants: its last entry \<open>b[d - 1]\<close> is 1, every
  entry with index in \<open>[0, d)\<close> lies between 0.1 and 1, and it is non-decreasing on
  \<open>[0, d)\<close>.
\<close>

theorem enforce_establishes_invariants:
  assumes "1 \<le> d p" and "0 \<le> j" and "j \<le> d p - 1"
  shows "fst (enforce p b j) (d p - 1) = 1 \<and>
         (\<forall>i. 0 \<le> i \<and> i < d p \<longrightarrow>
              1 / 10 \<le> fst (enforce p b j) i \<and> fst (enforce p b j) i \<le> 1) \<and>
         (\<forall>i. 0 \<le> i \<and> i < d p - 1 \<longrightarrow> fst (enforce p b j) i \<le> fst (enforce p b j) (i + 1))"
  using enforce_feasible [OF assms, of b] by (simp add: feasible_def)

theorem enforce_establishes_invariants_witness:
  "1 \<le> d (loaded_pruner 4) \<and> (0::int) \<le> 1 \<and> 1 \<le> d (loaded_pruner 4) - 1 \<and>
   fst (enforce (loaded_pruner 4) b_example 1) (d (loaded_pruner 4) - 1) = 1 \<and>
   1 / 10 \<le> fst (enforce (loaded_pruner 4) b_example 1) 0 \<and>
   fst (enforce (loaded_pruner 4) b_example 1) 0 \<le> fst (enforce (loaded_pruner 4) b_example 1) (0 + 1)"
proof -
  have h: "1 \<le> d (loaded_pruner 4)" "(0::int) \<le> 1" "1 \<le> d (loaded_pruner 4) - 1"
    by simp_all
  from enforce_establishes_invariants [OF h, of b_example] h show ?thesis
    by auto
qed

text \<open>
  C6: \<open>enforce\<close> is idempotent. For every \<open>b\<close>, every \<open>d \<ge> 1\<close> and every pivot \<open>j\<close> in
  \<open>[0, d)\<close>, a second call \<open>enforce(b, j)\<close> on the vector left by a first call leaves
  every entry unchanged and returns status 0.
\<close>

theorem enforce_idempotent:
  assumes "1 \<le> d p" and "0 \<le> j" and "j \<le> d p - 1"
  shows "enforce p (fst (enforce p b j)) j = (fst (enforce p b j), 0)"
  using assms enforce_feasible [OF assms, of b] by (rule enforce_fixed)

theorem enforce_idempotent_witness:
  "1 \<le> d (loaded_pruner 4) \<and> (0::int) \<le> 1 \<and> 1 \<le> d (loaded_pruner 4) - 1 \<and>
   enforce (loaded_pruner 4) (fst (enforce (loaded_pruner 4) b_example 1)) 1 =
     (fst (enforce (loaded_pruner 4) b_example 1), 0)"
proof -
  have h: "1 \<le> d (loaded_pruner 4)" "(0::int) \<le> 1" "1 \<le> d (loaded_pruner 4) - 1"
    by simp_all
  from enforce_idempotent [OF h, of b_example] h show ?thesis
    by simp
qed

text \<open>
  C9: the pivoted projection does not overwrite the pivot. For every \<open>b\<close>, every
  \<open>d \<ge> 2\<close> and every pivot \<open>j\<close> with \<open>0 \<le> j < d - 1\<close>, if \<open>0.1 \<le> b[j] \<le> 1\<close> before
  the call, then \<open>b[j]\<close> has the same value after \<open>enforce(b, j)\<close>.
\<close>

theorem enforce_keeps_pivot:
  assumes "2 \<le> d p" and "0 \<le> j" and "j < d p - 1"
    and "1 / 10 \<le> b j" and "b j \<le> 1"
  shows "fst (enforce p b j) j = b j"
  using assms by (rule enforce_pivot_kept)

theorem enforce_keeps_pivot_witness:
  "2 \<le> d (loaded_pruner 4) \<and> (0::int) \<le> 0 \<and> 0 < d (loaded_pruner 4) - 1 \<and>
   1 / 10 \<le> ones 0 \<and> ones 0 \<le> 1 \<and>
   fst (enforce (loaded_pruner 4) ones 0) 0 = ones 0"
proof -
  have h: "2 \<le> d (loaded_pruner 4)" "(0::int) \<le> 0" "0 < d (loaded_pruner 4) - 1"
    "1 / 10 \<le> ones 0" "ones 0 \<le> 1"
    by (simp_all add: ones_def)
  from enforce_keeps_pivot [of "loaded_pruner 4" 0 ones] h show ?thesis
    by simp
qed

subsection \<open>Loading and saving coefficient arrays\<close>

lemma extract_loop:
  assumes "0 \<le> d p"
  shows "for_up 0 (d p) (\<lambda>i b. b(i := pr (n p - 1 - 2 * i))) b0 = extracted p pr b0"
proof -
  let ?I = "\<lambda>k t. t = (\<lambda>i. if 0 \<le> i \<and> i < k then pr (n p - 1 - 2 * i) else b0 i)"
  have "?I (max 0 (d p)) (for_up 0 (d p) (\<lambda>i b. b(i := pr (n p - 1 - 2 * i))) b0)"
  proof (rule for_up_rule [where I = ?I])
    show "?I 0 b0" by auto
  next
    fix k t assume k: "0 \<le> k" "k < d p" and t: "?I k t"
    show "?I (k + 1) (t(k := pr (n p - 1 - 2 * k)))"
      unfolding t using k by (auto simp: fun_eq_iff)
  qed
  then show ?thesis using assms by (simp add: max_def extracted_def)
qed

lemma load_prunning_coeffs_eq:
  assumes "0 \<le> d p"
  shows "load_prunning_coeffs p pr b0 =
     (if snd (enforce p (extracted p pr b0) 0) \<noteq> 0 then Inl InfeasibleCoefficients
      else Inr (fst (enforce p (extracted p pr b0) 0)))"
  using assms by (simp add: load_prunning_coeffs_def extract_loop case_prod_beta)

lemma pinned_status_range: "pinned_status p b = 0 \<or> pinned_status p b = 1"
  by (simp add: pinned_status_def)

lemma enforce_status_zero:
  assumes dd: "1 \<le> d p" and st: "snd (enforce p b 0) = 0"
  shows "enforce p b 0 = (pinned_clamped p b, 0)" "pinned_status p b = 0"
proof -
  define s3 where "s3 = for_up 0 (d p - 1) enforce_right (pinned_clamped p b, pinned_status p b)"
  have e: "enforce p b 0 = for_down (0 - 1) 0 enforce_left s3"
    using dd by (simp add: enforce_unfold s3_def)
  have e3: "enforce p b 0 = s3"
    unfolding e by (simp add: for_down.simps)
  have "right_inv 0 (pinned_clamped p b) (pinned_status p b) (d p - 1) s3"
    unfolding s3_def using dd by (intro right_loop) simp
  then have "snd s3 = 1 \<or> s3 = (pinned_clamped p b, pinned_status p b)"
    by (simp add: right_inv_def)
  with st e3 have s3: "s3 = (pinned_clamped p b, pinned_status p b)" by auto
  with st e3 show "pinned_status p b = 0" by simp
  with s3 e3 show "enforce p b 0 = (pinned_clamped p b, 0)" by simp
qed

lemma enforce_status_range: 
  assumes dd: "1 \<le> d p"
  shows "snd (enforce p b 0) = 0 \<or> snd (enforce p b 0) = 1"
proof -
  define s3 where "s3 = for_up 0 (d p - 1) enforce_right (pinned_clamped p b, pinned_status p b)"
  have e: "enforce p b 0 = for_down (0 - 1) 0 enforce_left s3"
    using dd by (simp add: enforce_unfold s3_def)
  have e3: "enforce p b 0 = s3"
    unfolding e by (simp add: for_down.simps)
  have "right_inv 0 (pinned_clamped p b) (pinned_status p b) (d p - 1) s3"
    unfolding s3_def using dd by (intro right_loop) simp
  then have "snd s3 = 1 \<or> s3 = (pinned_clamped p b, pinned_status p b)"
    by (simp add: right_inv_def)
  then show ?thesis using pinned_status_range [of p b] e3 by auto
qed

lemma pinned_clamped_accepted:
  assumes dd: "1 \<le> d p" and st: "pinned_status p b = 0"
  shows "pinned_clamped p b (d p - 1) = 1"
    and "\<forall>i. 0 \<le> i \<and> i < d p - 1 \<longrightarrow> pinned_clamped p b i = max (1 / 10) (b i)"
proof -
  show "pinned_clamped p b (d p - 1) = 1" using dd by (rule pinned_clamped_last)
  have no: "\<not> (\<exists>m. 0 \<le> m \<and> m < d p \<and> (b(d p - 1 := 1)) m > 1)"
    using st by (auto simp: pinned_status_def split: if_splits)
  show "\<forall>i. 0 \<le> i \<and> i < d p - 1 \<longrightarrow> pinned_clamped p b i = max (1 / 10) (b i)"
  proof (intro allI impI)
    fix i assume i: "0 \<le> i \<and> i < d p - 1"
    then have "b i \<le> 1" using no by (auto simp: not_less dest!: spec [of _ i])
    then show "pinned_clamped p b i = max (1 / 10) (b i)"
      using i by (simp add: pinned_clamped_def clampv_max)
  qed
qed

lemma enforce_raised:
  assumes dd: "1 \<le> d p"
    and mono: "\<forall>i. 0 \<le> i \<and> i < d p - 1 \<longrightarrow> b i \<le> b (i + 1)"
    and last: "b (d p - 1) = 1"
    and le1: "\<forall>i. 0 \<le> i \<and> i < d p \<longrightarrow> b i \<le> 1"
  shows "enforce p b 0 = (raised p b, 0)"
proof -
  have pin: "b(d p - 1 := 1) = b" using last by auto
  have b2: "pinned_clamped p b = raised p b"
    unfolding pinned_clamped_def pin raised_def using le1 by (auto simp: fun_eq_iff clampv_max)
  have st: "pinned_status p b = 0"
    unfolding pinned_status_def pin using le1 last by (auto simp: not_less)
  have "right_inv 0 (raised p b) 0 (d p - 1) (for_up 0 (d p - 1) enforce_right (raised p b, 0))"
    using dd by (intro right_loop) simp
  moreover have "\<forall>m. 0 \<le> m \<and> m < d p - 1 \<longrightarrow> raised p b m \<le> raised p b (m + 1)"
  proof (intro allI impI)
    fix m assume m: "0 \<le> m \<and> m < d p - 1"
    then have "b m \<le> b (m + 1)" using mono by simp
    then show "raised p b m \<le> raised p b (m + 1)"
      using m by (simp add: raised_def max_def)
  qed
  ultimately have s3: "for_up 0 (d p - 1) enforce_right (raised p b, 0) = (raised p b, 0)"
    unfolding right_inv_def by blast
  show ?thesis
    using dd by (simp add: enforce_unfold b2 st s3 for_down.simps)
qed


lemma save_loop:
  assumes "0 \<le> d p"
  shows "save_prunning_coeffs p pr b =
     (\<lambda>k. if k = 0 then 1
          else if n p - 1 - 2 * d p < k \<and> k \<le> n p - 1 then b ((n p - 1 - k) div 2)
          else pr k)"
proof -
  let ?body = "\<lambda>i pr. let pr = pr(n p - 1 - 2 * i := b i); pr = pr(n p - 2 - 2 * i := b i) in pr"
  let ?I = "\<lambda>m t. t = (\<lambda>k. if n p - 1 - 2 * m < k \<and> k \<le> n p - 1 then b ((n p - 1 - k) div 2) else pr k)"
  have "?I (max 0 (d p)) (for_up 0 (d p) ?body pr)"
  proof (rule for_up_rule [where I = ?I])
    show "?I 0 pr" by auto
  next
    fix m t assume m: "0 \<le> m" "m < d p" and t: "?I m t"
    have a: "(n p - 1 - (n p - 1 - 2 * m)) div 2 = m" by simp
    have b: "(n p - 1 - (n p - 2 - 2 * m)) div 2 = m" by simp
    show "?I (m + 1) (?body m t)"
      unfolding t Let_def
    proof (rule ext)
      fix k
      consider "k = n p - 1 - 2 * m" | "k = n p - 2 - 2 * m" | "k < n p - 2 - 2 * m" | "n p - 1 - 2 * m < k"
        by linarith
      then show "((\<lambda>k. if n p - 1 - 2 * m < k \<and> k \<le> n p - 1 then b ((n p - 1 - k) div 2) else pr k)
            (n p - 1 - 2 * m := b m, n p - 2 - 2 * m := b m)) k =
           (if n p - 1 - 2 * (m + 1) < k \<and> k \<le> n p - 1 then b ((n p - 1 - k) div 2) else pr k)"
        using m a b by cases auto
    qed
  qed
  then show ?thesis using assms by (auto simp: max_def save_prunning_coeffs_def Let_def fun_eq_iff)
qed

lemma save_then_extract:
  assumes dd: "1 \<le> d p" and nn: "n p = 2 * d p \<or> n p = 2 * d p + 1"
    and i: "0 \<le> i" "i < d p"
  shows "extracted p (save_prunning_coeffs p pr b) b0 i = b i"
proof -
  have "n p - 1 - 2 * i \<noteq> 0" using nn i by presburger
  moreover have "n p - 1 - 2 * d p < n p - 1 - 2 * i" "n p - 1 - 2 * i \<le> n p - 1"
    using i by auto
  moreover have "(n p - 1 - (n p - 1 - 2 * i)) div 2 = i" by simp
  ultimately show ?thesis
    using dd i by (simp add: extracted_def save_loop)
qed

lemma feasible_cong:
  assumes "\<forall>i. 0 \<le> i \<and> i < d p \<longrightarrow> b' i = b i" and "1 \<le> d p" and "feasible p b"
  shows "feasible p b'"
  using assms unfolding feasible_def by simp

subsection \<open>Evaluating the example Pruners\<close>

lemma loaded_pruner_fields:
  assumes "dim' sdiv 2 \<noteq> 0"
  shows "shell_ratio (loaded_pruner dim') = 995 / 1000"
    "minus_one (loaded_pruner dim') = - 1"
    "one (loaded_pruner dim') = 1"
    "symmetry_factor (loaded_pruner dim') = 2"
    "enumeration_radius (loaded_pruner dim') = 1"
    "target_success_proba (loaded_pruner dim') = 90 / 100"
    "preproc_cost (loaded_pruner dim') = 0"
    "tabulated_factorial (loaded_pruner dim') = tabulated_factorial new_pruner"
    "tabulated_ball_vol (loaded_pruner dim') = tabulated_ball_vol new_pruner"
  using load_basis_shape_fields [OF loaded_pruner_ok [OF assms]]
  by (simp_all add: new_pruner_fields)

lemma extracted_low:
  "extracted (loaded_pruner 4) pr_low b0 0 = 5 / 100"
  "extracted (loaded_pruner 4) pr_low b0 1 = 1"
  by (simp_all add: extracted_def pr_low_def)

lemma low_monotone:
  "\<forall>i. 0 \<le> i \<and> i < d (loaded_pruner 4) - 1 \<longrightarrow>
      extracted (loaded_pruner 4) pr_low b0 i \<le> extracted (loaded_pruner 4) pr_low b0 (i + 1)"
  by (auto simp: extracted_def pr_low_def)

lemma low_at_most_one:
  "\<forall>i. 0 \<le> i \<and> i < d (loaded_pruner 4) \<longrightarrow> extracted (loaded_pruner 4) pr_low b0 i \<le> 1"
  by (auto simp: extracted_def pr_low_def)

lemma enforce_low:
  "enforce (loaded_pruner 4) (extracted (loaded_pruner 4) pr_low b0) 0 =
     (raised (loaded_pruner 4) (extracted (loaded_pruner 4) pr_low b0), 0)"
  by (rule enforce_raised) (simp_all add: extracted_low low_monotone low_at_most_one)

lemma raised_low:
  "raised (loaded_pruner 4) (extracted (loaded_pruner 4) pr_low b0) 0 = 1 / 10"
  "raised (loaded_pruner 4) (extracted (loaded_pruner 4) pr_low b0) 1 = 1"
  by (simp_all add: raised_def extracted_low)

lemma relative_volume_2:
  assumes "minus_one p = - 1" "tabulated_factorial p 2 = 2" "b 1 = 1"
  shows "relative_volume p 2 b = 2 * b 0 - b 0 * b 0"
  using assms
  by (simp add: relative_volume_def relative_volume_step_def integrate_poly_def eval_poly_def
      for_down.simps Let_def signed_modulo_int_def algebra_simps)

lemma svp_success_proba_4:
  assumes "b 1 = 1" "b 0 \<le> 1 / 2"
  shows "svp_success_proba (loaded_pruner 4) b =
     ((199 / 200) ^ 4 * (80000 * b 0 / 39601 - 1600000000 * (b 0 * b 0) / 1568239201) -
      (2 * b 0 - b 0 * b 0)) / ((199 / 200) ^ 4 - 1)"
proof -
  have tf: "tabulated_factorial (loaded_pruner 4) 2 = 2"
    by (simp add: loaded_pruner_fields signed_divide_int_def new_pruner_tables pre_factorial_def)
  have m1: "minus_one (loaded_pruner 4) = - 1"
    by (simp add: loaded_pruner_fields signed_divide_int_def)
  have rv: "relative_volume (loaded_pruner 4) 2 b = 2 * b 0 - b 0 * b 0"
    using m1 tf assms(1) by (rule relative_volume_2)
  show ?thesis
    using assms
    apply (simp add: svp_success_proba_def Let_def for_up.simps loaded_pruner_fields
        signed_divide_int_def rv)
    apply (subst relative_volume_2)
       apply (simp_all add: m1 tf)
    done
qed

subsection \<open>Claims about the public queries\<close>

text \<open>
  C1 (the code does not do this): on a Pruner on which \<open>load_basis_shape\<close> has not been
  called (\<open>n = 0\<close>, \<open>d = 0\<close>) every public query should raise \<open>BasisNotLoaded\<close>.
  The method \<open>check_loaded_basis\<close> raises it, but no query calls that method: on the
  freshly constructed Pruner \<open>get_enum_cost\<close> goes through \<open>enforce\<close> with \<open>d = 0\<close>,
  which reads and writes the cell \<open>b[-1]\<close>, and then either raises
  \<open>InfeasibleCoefficients\<close> or returns the cost 0; the other queries and
  \<open>optimize_pruning_coeffs\<close> do not raise \<open>BasisNotLoaded\<close> either.
\<close>

theorem query_before_load:
  "check_loaded_basis new_pruner = Inl BasisNotLoaded \<and>
   get_enum_cost new_pruner b0 pr =
     (if b0 (- 1) < 1 then Inl InfeasibleCoefficients else Inr 0) \<and>
   get_enum_cost_with_retrials new_pruner b0 pr \<noteq> Inl BasisNotLoaded \<and>
   get_svp_success_proba new_pruner b0 pr \<noteq> Inl BasisNotLoaded \<and>
   optimize_pruning_coeffs new_pruner b0 pr reset \<noteq> Some (Inl BasisNotLoaded)"
proof -
  have load: "load_prunning_coeffs new_pruner pr b0 =
      (if b0 (- 1) < 1 then Inl InfeasibleCoefficients else Inr (b0(- 1 := 1)))"
    by (simp add: load_prunning_coeffs_def enforce_def Let_def new_pruner_fields
        for_up.simps [of 0 0] for_up.simps [of 0 "- 1"] for_down.simps [of "- 1" 0])
  have "cost new_pruner (b0(- 1 := 1)) = 0"
    by (simp add: cost_def Let_def new_pruner_fields for_up.simps [of 0 0] for_up.simps [of 1 0])
  then show ?thesis
    by (simp add: check_loaded_basis_def get_enum_cost_def get_enum_cost_with_retrials_def
        get_svp_success_proba_def optimize_pruning_coeffs_def new_pruner_fields load
        split: option.splits)
qed

text \<open>
  C4 (as stated it fails): the claim says that a query which does not raise returns the
  quantity computed from the extracted vector. On dimension 4 with
  \<open>pr = [1, 1, 0.05, 0.05]\<close> the extracted vector is \<open>[0.05, 1]\<close>; \<open>enforce\<close> reports
  no change, and \<open>get_svp_success_proba\<close> returns the probability of \<open>[0.1, 1]\<close>, which
  is not that of \<open>[0.05, 1]\<close>.
\<close>

theorem query_value_counterexample:
  "snd (enforce (loaded_pruner 4) (extracted (loaded_pruner 4) pr_low uninitialised) 0) = 0 \<and>
   get_svp_success_proba (loaded_pruner 4) uninitialised pr_low \<noteq>
     Inr (svp_success_proba (loaded_pruner 4) (extracted (loaded_pruner 4) pr_low uninitialised))"
proof -
  have "get_svp_success_proba (loaded_pruner 4) uninitialised pr_low =
      Inr (svp_success_proba (loaded_pruner 4)
             (raised (loaded_pruner 4) (extracted (loaded_pruner 4) pr_low uninitialised)))"
    by (simp add: get_svp_success_proba_def load_prunning_coeffs_eq enforce_low)
  moreover have "svp_success_proba (loaded_pruner 4)
        (raised (loaded_pruner 4) (extracted (loaded_pruner 4) pr_low uninitialised)) \<noteq>
      svp_success_proba (loaded_pruner 4) (extracted (loaded_pruner 4) pr_low uninitialised)"
    by (simp add: svp_success_proba_4 raised_low extracted_low power_divide)
  ultimately show ?thesis
    by (simp add: enforce_low)
qed

text \<open>
  C4, amended: for every Pruner with a loaded basis (\<open>d \<ge> 1\<close>) and every input array
  \<open>pr\<close>, each of \<open>get_enum_cost\<close>, \<open>get_enum_cost_with_retrials\<close> and
  \<open>get_svp_success_proba\<close> raises \<open>InfeasibleCoefficients\<close> if and only if \<open>enforce\<close>
  applied to the extracted vector \<open>b[i] = pr[n - 1 - 2 i]\<close> reports a change. When no
  change is reported, the query returns the quantity computed from the vector that
  \<open>enforce\<close> leaves, not from the extracted one: its last entry is 1 and every
  other entry \<open>i < d - 1\<close> is \<open>max(0.1, b[i])\<close>.
\<close>

theorem query_rejects_iff_enforce_reports:
  assumes "1 \<le> d p"
  shows "(get_enum_cost p b0 pr = Inl InfeasibleCoefficients \<longleftrightarrow>
            snd (enforce p (extracted p pr b0) 0) \<noteq> 0) \<and>
         (get_enum_cost_with_retrials p b0 pr = Inl InfeasibleCoefficients \<longleftrightarrow>
            snd (enforce p (extracted p pr b0) 0) \<noteq> 0) \<and>
         (get_svp_success_proba p b0 pr = Inl InfeasibleCoefficients \<longleftrightarrow>
            snd (enforce p (extracted p pr b0) 0) \<noteq> 0) \<and>
         (snd (enforce p (extracted p pr b0) 0) = 0 \<longrightarrow>
            get_enum_cost p b0 pr = Inr (cost p (fst (enforce p (extracted p pr b0) 0))) \<and>
            get_enum_cost_with_retrials p b0 pr =
              Inr (cost_factor p (fst (enforce p (extracted p pr b0) 0))) \<and>
            get_svp_success_proba p b0 pr =
              Inr (svp_success_proba p (fst (enforce p (extracted p pr b0) 0))) \<and>
            fst (enforce p (extracted p pr b0) 0) (d p - 1) = 1 \<and>
            (\<forall>i. 0 \<le> i \<and> i < d p - 1 \<longrightarrow>
               fst (enforce p (extracted p pr b0) 0) i = max (1 / 10) (extracted p pr b0 i)))"
proof -
  have load: "load_prunning_coeffs p pr b0 =
     (if snd (enforce p (extracted p pr b0) 0) \<noteq> 0 then Inl InfeasibleCoefficients
      else Inr (fst (enforce p (extracted p pr b0) 0)))"
    using assms by (intro load_prunning_coeffs_eq) simp
  have shape: "fst (enforce p (extracted p pr b0) 0) (d p - 1) = 1 \<and>
      (\<forall>i. 0 \<le> i \<and> i < d p - 1 \<longrightarrow>
         fst (enforce p (extracted p pr b0) 0) i = max (1 / 10) (extracted p pr b0 i))"
    if st: "snd (enforce p (extracted p pr b0) 0) = 0"
    using enforce_status_zero [OF assms st] pinned_clamped_accepted [OF assms]
    by simp
  show ?thesis
    using shape by (simp add: get_enum_cost_def get_enum_cost_with_retrials_def
        get_svp_success_proba_def load)
qed

theorem query_rejects_iff_enforce_reports_witness:
  "1 \<le> d (loaded_pruner 4) \<and>
   snd (enforce (loaded_pruner 4) (extracted (loaded_pruner 4) pr_low uninitialised) 0) = 0 \<and>
   get_enum_cost (loaded_pruner 4) uninitialised pr_low =
     Inr (cost (loaded_pruner 4)
            (fst (enforce (loaded_pruner 4) (extracted (loaded_pruner 4) pr_low uninitialised) 0))) \<and>
   fst (enforce (loaded_pruner 4) (extracted (loaded_pruner 4) pr_low uninitialised) 0) 0 = 1 / 10 \<and>
   snd (enforce (loaded_pruner 4) (extracted (loaded_pruner 4) pr_not_monotone uninitialised) 0) \<noteq> 0 \<and>
   get_enum_cost (loaded_pruner 4) uninitialised pr_not_monotone = Inl InfeasibleCoefficients"
proof -
  have h: "1 \<le> d (loaded_pruner 4)" by simp
  have st: "snd (enforce (loaded_pruner 4) (extracted (loaded_pruner 4) pr_low uninitialised) 0) = 0"
    by (simp add: enforce_low)
  have bad: "snd (enforce (loaded_pruner 4)
      (extracted (loaded_pruner 4) pr_not_monotone uninitialised) 0) \<noteq> 0"
    by (simp add: enforce_def extracted_def pr_not_monotone_def Let_def for_up.simps
        for_down.simps enforce_clamp_def enforce_right_def enforce_left_def)
  from query_rejects_iff_enforce_reports [OF h, of uninitialised pr_low]
    query_rejects_iff_enforce_reports [OF h, of uninitialised pr_not_monotone] h st bad
  show ?thesis
    by (simp add: extracted_low)
qed

text \<open>
  C10: inputs that violate only the lower bound 0.1 are accepted. For every loaded
  basis (\<open>d \<ge> 1\<close>) and every \<open>pr\<close> whose extracted vector is non-decreasing, has
  \<open>b[d - 1] = 1\<close> and every entry at most 1, but has an entry below 0.1, \<open>enforce\<close>
  reports no change while it raises the entries below 0.1 to 0.1, none of the three
  queries raises, and each returns the quantity computed for the raised vector, which
  is not the extracted one.
\<close>

theorem low_entries_accepted:
  assumes "1 \<le> d p"
    and "\<forall>i. 0 \<le> i \<and> i < d p - 1 \<longrightarrow> extracted p pr b0 i \<le> extracted p pr b0 (i + 1)"
    and "extracted p pr b0 (d p - 1) = 1"
    and "\<forall>i. 0 \<le> i \<and> i < d p \<longrightarrow> extracted p pr b0 i \<le> 1"
    and "\<exists>i. 0 \<le> i \<and> i < d p \<and> extracted p pr b0 i < 1 / 10"
  shows "enforce p (extracted p pr b0) 0 = (raised p (extracted p pr b0), 0) \<and>
         get_enum_cost p b0 pr = Inr (cost p (raised p (extracted p pr b0))) \<and>
         get_enum_cost_with_retrials p b0 pr = Inr (cost_factor p (raised p (extracted p pr b0))) \<and>
         get_svp_success_proba p b0 pr = Inr (svp_success_proba p (raised p (extracted p pr b0))) \<and>
         raised p (extracted p pr b0) \<noteq> extracted p pr b0"
proof -
  have e: "enforce p (extracted p pr b0) 0 = (raised p (extracted p pr b0), 0)"
    using assms(1-4) by (rule enforce_raised)
  have load: "load_prunning_coeffs p pr b0 = Inr (raised p (extracted p pr b0))"
    using assms(1) by (simp add: load_prunning_coeffs_eq e)
  from assms(5) obtain i where i: "0 \<le> i" "i < d p" "extracted p pr b0 i < 1 / 10"
    by blast
  then have "raised p (extracted p pr b0) i \<noteq> extracted p pr b0 i"
    by (simp add: raised_def max_def)
  then have "raised p (extracted p pr b0) \<noteq> extracted p pr b0"
    by (auto simp: fun_eq_iff)
  then show ?thesis
    by (simp add: e get_enum_cost_def get_enum_cost_with_retrials_def
        get_svp_success_proba_def load)
qed

theorem low_entries_accepted_witness:
  "1 \<le> d (loaded_pruner 4) \<and>
   extracted (loaded_pruner 4) pr_low uninitialised 0 \<le> extracted (loaded_pruner 4) pr_low uninitialised 1 \<and>
   extracted (loaded_pruner 4) pr_low uninitialised (d (loaded_pruner 4) - 1) = 1 \<and>
   extracted (loaded_pruner 4) pr_low uninitialised 0 < 1 / 10 \<and>
   get_enum_cost (loaded_pruner 4) uninitialised pr_low =
     Inr (cost (loaded_pruner 4) (raised (loaded_pruner 4) (extracted (loaded_pruner 4) pr_low uninitialised))) \<and>
   raised (loaded_pruner 4) (extracted (loaded_pruner 4) pr_low uninitialised) 0 = 1 / 10"
proof -
  have h: "1 \<le> d (loaded_pruner 4)"
    "extracted (loaded_pruner 4) pr_low uninitialised (d (loaded_pruner 4) - 1) = 1"
    by (simp_all add: extracted_low)
  have ex: "\<exists>i. 0 \<le> i \<and> i < d (loaded_pruner 4) \<and>
      extracted (loaded_pruner 4) pr_low uninitialised i < 1 / 10"
    by (intro exI [of _ 0]) (simp add: extracted_low)
  from low_entries_accepted [OF h(1) low_monotone h(2) low_at_most_one ex] h
  show ?thesis
    by (simp add: extracted_low raised_low)
qed

text \<open>
  C8: save/load round trip. For every loaded basis (\<open>d \<ge> 1\<close>, \<open>n\<close> equal to \<open>2 d\<close> or
  \<open>2 d + 1\<close>) and every feasible compact vector \<open>b\<close>, \<open>save_prunning_coeffs(pr, b)\<close>
  followed by \<open>load_prunning_coeffs(pr, b')\<close> raises nothing and yields \<open>b'\<close> equal to
  \<open>b\<close> on \<open>[0, d)\<close>; and \<open>pr[0] = 1\<close> after the save.
\<close>

theorem save_load_round_trip:
  assumes "1 \<le> d p" and "n p = 2 * d p \<or> n p = 2 * d p + 1" and "feasible p b"
  shows "\<exists>b'. load_prunning_coeffs p (save_prunning_coeffs p pr b) b0 = Inr b' \<and>
              (\<forall>i. 0 \<le> i \<and> i < d p \<longrightarrow> b' i = b i) \<and>
              save_prunning_coeffs p pr b 0 = 1"
proof -
  let ?b' = "extracted p (save_prunning_coeffs p pr b) b0"
  have same: "\<forall>i. 0 \<le> i \<and> i < d p \<longrightarrow> ?b' i = b i"
    using save_then_extract [OF assms(1,2)] by blast
  then have "feasible p ?b'"
    using assms(1,3) by (rule feasible_cong)
  then have "enforce p ?b' 0 = (?b', 0)"
    using assms(1) by (intro enforce_fixed) simp_all
  then have "load_prunning_coeffs p (save_prunning_coeffs p pr b) b0 = Inr ?b'"
    using assms(1) by (simp add: load_prunning_coeffs_eq)
  moreover have "save_prunning_coeffs p pr b 0 = 1"
    by (simp add: save_prunning_coeffs_def Let_def)
  ultimately show ?thesis using same by blast
qed

theorem save_load_round_trip_witness:
  "1 \<le> d (loaded_pruner 4) \<and> n (loaded_pruner 4) = 2 * d (loaded_pruner 4) \<and>
   feasible (loaded_pruner 4) ones \<and>
   (\<exists>b'. load_prunning_coeffs (loaded_pruner 4)
            (save_prunning_coeffs (loaded_pruner 4) uninitialised ones) uninitialised = Inr b' \<and>
          b' 0 = ones 0 \<and> b' 1 = ones 1) \<and>
   save_prunning_coeffs (loaded_pruner 4) uninitialised ones 0 = 1"
proof -
  have h: "1 \<le> d (loaded_pruner 4)"
    "n (loaded_pruner 4) = 2 * d (loaded_pruner 4) \<or> n (loaded_pruner 4) = 2 * d (loaded_pruner 4) + 1"
    "feasible (loaded_pruner 4) ones"
    by (simp_all add: feasible_def ones_def)
  from save_load_round_trip [OF h, of uninitialised uninitialised]
  obtain b' where "load_prunning_coeffs (loaded_pruner 4)
        (save_prunning_coeffs (loaded_pruner 4) uninitialised ones) uninitialised = Inr b'"
    "\<forall>i. 0 \<le> i \<and> i < d (loaded_pruner 4) \<longrightarrow> b' i = ones i"
    "save_prunning_coeffs (loaded_pruner 4) uninitialised ones 0 = 1"
    by blast
  then show ?thesis using h(3) by simp
qed

subsection \<open>The polynomial kernel and the volume of the unpruned region\<close>

lemma alt_coeff_sum:
  assumes "0 < m"
  shows "(\<Sum>i\<le>m. alt_coeff m i) = 0"
proof -
  have "alt_coeff m i = (- 1) ^ m / fact m * ((- 1) ^ i * real (m choose i))" if "i \<le> m" for i
  proof -
    have "(- 1 :: real) ^ (m - i) = (- 1) ^ m * (- 1) ^ i"
      using that by (metis (no_types) le_add_diff_inverse2 mult.assoc mult.right_neutral
          power_add power_minus1_even mult_2)
    then show ?thesis
      using that by (simp add: alt_coeff_def binomial_fact)
  qed
  then have "(\<Sum>i\<le>m. alt_coeff m i) = (\<Sum>i\<le>m. (- 1) ^ m / fact m * ((- 1) ^ i * real (m choose i)))"
    by (intro sum.cong) simp_all
  also have "\<dots> = (- 1) ^ m / fact m * (\<Sum>i\<le>m. (- 1) ^ i * real (m choose i))"
    by (simp add: sum_distrib_left)
  also have "\<dots> = 0"
    using choose_alternating_sum [OF assms, where 'a = real] by simp
  finally show ?thesis .
qed

lemma integrate_poly_cells:
  assumes "0 \<le> ld"
  shows "integrate_poly ld P =
     (\<lambda>j. if j = 0 then 0 else if 1 \<le> j \<and> j \<le> ld + 1 then P (j - 1) / real_of_int j else P j)"
proof -
  let ?body = "\<lambda>i P. let tmp = real_of_int i + 1 in P(i + 1 := P i / tmp)"
  let ?I = "\<lambda>k t. t = (\<lambda>j. if k + 1 < j \<and> j \<le> ld + 1 then P (j - 1) / real_of_int j else P j)"
  have "?I (min ld (0 - 1)) (for_down ld 0 ?body P)"
  proof (rule for_down_rule [where I = ?I])
    show "?I ld P" by auto
  next
    fix k t assume k: "0 \<le> k" "k \<le> ld" and t: "?I k t"
    have "real_of_int k + 1 = real_of_int (k + 1)" by simp
    then show "?I (k - 1) (?body k t)"
      unfolding t Let_def using k by (auto simp: fun_eq_iff)
  qed
  moreover have "min ld (0 - 1) = - 1" using assms by simp
  ultimately show ?thesis
    by (auto simp: integrate_poly_def Let_def fun_eq_iff)
qed

lemma eval_poly_at_one:
  assumes "0 \<le> ld"
  shows "eval_poly ld Q 1 = (\<Sum>i\<le>nat ld. Q (int i))"
proof -
  let ?body = "\<lambda>i acc. let acc = acc * 1 in acc + Q i"
  let ?I = "\<lambda>k acc. - 1 \<le> k \<and> k \<le> ld \<and> acc = (\<Sum>i\<in>{nat (k + 1)..nat ld}. Q (int i))"
  have "?I (min ld (0 - 1)) (for_down ld 0 ?body 0)"
  proof (rule for_down_rule [where I = ?I])
    show "?I ld 0" using assms by simp
  next
    fix k acc assume k: "0 \<le> k" "k \<le> ld" and acc: "?I k acc"
    have "nat (k - 1 + 1) = nat k" "nat (k + 1) = Suc (nat k)" "nat k \<le> nat ld" "int (nat k) = k"
      using k by simp_all
    then show "?I (k - 1) (?body k acc)"
      using acc k by (simp add: sum.atLeast_Suc_atMost [of "nat k" "nat ld"])
  qed
  moreover have "min ld (0 - 1) = - 1" using assms by simp
  ultimately show ?thesis
    by (simp add: eval_poly_def atLeast0AtMost)
qed


lemma alt_coeff_Suc: "i \<le> m \<Longrightarrow> alt_coeff (Suc m) (Suc i) = alt_coeff m i / real (Suc i)"
  by (simp add: alt_coeff_def)

lemma alt_coeff_head:
  "alt_coeff (Suc m) 0 = - (\<Sum>i\<le>m. alt_coeff (Suc m) (Suc i))"
proof -
  have "(\<Sum>i\<le>Suc m. alt_coeff (Suc m) i) = alt_coeff (Suc m) 0 + (\<Sum>i\<le>m. alt_coeff (Suc m) (Suc i))"
    by (rule sum.atMost_Suc_shift)
  then show ?thesis
    using alt_coeff_sum [of "Suc m"] by simp
qed

lemma volume_step:
  assumes ld: "0 \<le> ld"
    and P: "\<forall>i\<le>nat ld. P (int i) = alt_coeff (nat ld) i"
    and m1: "minus_one p = - 1"
    and x: "b k / b (rd - 1) = 1"
  shows "snd (relative_volume_step p rd b k (P, ld)) = ld + 1"
    and "\<forall>i\<le>nat (ld + 1). fst (relative_volume_step p rd b k (P, ld)) (int i) = alt_coeff (nat (ld + 1)) i"
proof -
  define Q where "Q = integrate_poly ld P"
  define P' where "P' = Q(0 := - eval_poly (ld + 1) Q 1)"
  have step: "relative_volume_step p rd b k (P, ld) = (P', ld + 1)"
    by (simp add: relative_volume_step_def Let_def Q_def P'_def m1 x)
  have n1: "nat (ld + 1) = Suc (nat ld)" using ld by simp
  have Q0: "Q 0 = 0" using ld by (simp add: Q_def integrate_poly_cells)
  have QS: "Q (int (Suc i)) = alt_coeff (Suc (nat ld)) (Suc i)" if "i \<le> nat ld" for i
  proof -
    have "int i \<le> ld" using ld that by linarith
    then have "Q (int (Suc i)) = P (int i) / real (Suc i)"
      using ld by (simp add: Q_def integrate_poly_cells add.commute)
    then show ?thesis using that P by (simp add: alt_coeff_Suc)
  qed
  have "eval_poly (ld + 1) Q 1 = (\<Sum>i\<le>Suc (nat ld). Q (int i))"
    using ld by (simp add: eval_poly_at_one n1)
  also have "\<dots> = Q (int 0) + (\<Sum>i\<le>nat ld. Q (int (Suc i)))"
    by (rule sum.atMost_Suc_shift)
  also have "\<dots> = (\<Sum>i\<le>nat ld. alt_coeff (Suc (nat ld)) (Suc i))"
    using Q0 QS by simp
  finally have P'0: "P' 0 = alt_coeff (Suc (nat ld)) 0"
    by (simp add: P'_def alt_coeff_head)
  show "snd (relative_volume_step p rd b k (P, ld)) = ld + 1"
    by (simp add: step)
  show "\<forall>i\<le>nat (ld + 1). fst (relative_volume_step p rd b k (P, ld)) (int i) = alt_coeff (nat (ld + 1)) i"
  proof (intro allI impI)
    fix i assume i: "i \<le> nat (ld + 1)"
    show "fst (relative_volume_step p rd b k (P, ld)) (int i) = alt_coeff (nat (ld + 1)) i"
    proof (cases i)
      case 0
      then show ?thesis using P'0 by (simp add: step n1)
    next
      case (Suc i')
      then have "i' \<le> nat ld" using i n1 by simp
      then show ?thesis using QS [of i'] Suc by (simp add: step n1 P'_def)
    qed
  qed
qed

lemma volume_loop:
  assumes rd: "0 \<le> rd"
    and m1: "minus_one p = - 1"
    and b: "\<forall>i. 0 \<le> i \<and> i < rd \<longrightarrow> b i = 1"
  shows "snd (for_down (rd - 1) 0 (relative_volume_step p rd b) (uninitialised(0 := 1), 0)) = rd"
    and "fst (for_down (rd - 1) 0 (relative_volume_step p rd b) (uninitialised(0 := 1), 0)) 0 =
           alt_coeff (nat rd) 0"
proof -
  let ?I = "\<lambda>k t. - 1 \<le> k \<and> snd t = rd - 1 - k \<and> (\<forall>i\<le>nat (snd t). fst t (int i) = alt_coeff (nat (snd t)) i)"
  let ?t = "for_down (rd - 1) 0 (relative_volume_step p rd b) (uninitialised(0 := 1), 0)"
  have "?I (min (rd - 1) (0 - 1)) ?t"
  proof (rule for_down_rule [where I = ?I])
    show "?I (rd - 1) (uninitialised(0 := 1), 0)"
      using rd by (simp add: alt_coeff_def)
  next
    fix k t assume k: "0 \<le> k" "k \<le> rd - 1" and t: "?I k t"
    obtain P ld where pl: "t = (P, ld)" by (cases t)
    have ld: "0 \<le> ld" "ld = rd - 1 - k" using t k pl by simp_all
    have x: "b k / b (rd - 1) = 1" using b k by simp
    have P: "\<forall>i\<le>nat ld. P (int i) = alt_coeff (nat ld) i" using t pl by simp
    show "?I (k - 1) (relative_volume_step p rd b k t)"
      unfolding pl using volume_step [OF ld(1) P m1 x] k ld(2) by simp
  qed
  moreover have "min (rd - 1) (0 - 1) = - 1" using rd by simp
  ultimately have fin: "?I (- 1) ?t" by simp
  then show "snd ?t = rd" by simp
  with fin show "fst ?t 0 = alt_coeff (nat rd) 0"
    by (metis le0 of_nat_0)
qed

lemma relative_volume_ones:
  assumes rd: "0 \<le> rd"
    and m1: "minus_one p = - 1"
    and tf: "tabulated_factorial p rd = fact (nat rd)"
    and b: "\<forall>i. 0 \<le> i \<and> i < rd \<longrightarrow> b i = 1"
  shows "relative_volume p rd b = 1"
proof -
  have sm: "rd smod 2 = rd mod 2"
    using rd by (simp add: signed_modulo_int_def sgn_if)
  have P0: "fst (for_down (rd - 1) 0 (relative_volume_step p rd b) (uninitialised(0 := 1), 0)) 0 =
      (- 1) ^ nat rd / fact (nat rd)"
    using volume_loop(2) [OF rd m1 b] by (simp add: alt_coeff_def)
  show ?thesis
  proof (cases "rd mod 2 = 0")
    case True
    then have "even rd" by presburger
    then have "even (nat rd)" using rd by (simp add: even_nat_iff)
    then show ?thesis
      using True by (simp add: relative_volume_def Let_def case_prod_beta sm P0 tf)
  next
    case False
    then have "odd rd" by presburger
    then have "odd (nat rd)" using rd by (simp add: even_nat_iff)
    then show ?thesis
      using False by (simp add: relative_volume_def Let_def case_prod_beta sm P0 tf m1)
  qed
qed

subsection \<open>The shell of the all-ones vector, and dimension 2\<close>

lemma shifted_ones:
  assumes dd: "0 \<le> d p" and dx: "0 < dx" "dx < 1"
    and b: "\<forall>i. 0 \<le> i \<and> i < d p \<longrightarrow> b i = 1"
  shows "\<forall>i. 0 \<le> i \<and> i < d p \<longrightarrow>
     for_up 0 (d p) (\<lambda>i bm. let bm = bm(i := b i / (dx * dx))
                               in if bm i > 1 then bm(i := 1) else bm) uninitialised i = 1"
proof -
  let ?body = "\<lambda>i bm. let bm = bm(i := b i / (dx * dx)) in if bm i > 1 then bm(i := 1) else bm"
  let ?I = "\<lambda>k (t :: int \<Rightarrow> real). \<forall>i. 0 \<le> i \<and> i < k \<longrightarrow> t i = 1"
  have "dx * dx < 1 * 1"
    using dx by (intro mult_strict_mono) simp_all
  then have big: "1 / (dx * dx) > 1"
    using dx by simp
  have "?I (max 0 (d p)) (for_up 0 (d p) ?body uninitialised)"
  proof (rule for_up_rule [where I = ?I])
    show "?I 0 uninitialised" by simp
  next
    fix k t assume k: "0 \<le> k" "k < d p" and t: "?I k t"
    have "b k = 1" using b k by simp
    then have "?body k t = t(k := 1)"
      using big by (simp add: Let_def)
    then show "?I (k + 1) (?body k t)"
      using t by auto
  qed
  then show ?thesis using dd by (simp add: max_def)
qed

lemma svp_success_proba_ones:
  assumes dd: "1 \<le> d p"
    and m1: "minus_one p = - 1"
    and tf: "tabulated_factorial p (d p) = fact (nat (d p))"
    and dx: "0 < shell_ratio p" "shell_ratio p < 1"
    and b: "\<forall>i. 0 \<le> i \<and> i < d p \<longrightarrow> b i = 1"
  shows "svp_success_proba p b = 1"
proof -
  let ?bm = "for_up 0 (d p) (\<lambda>i bm. let bm = bm(i := b i / (shell_ratio p * shell_ratio p))
                               in if bm i > 1 then bm(i := 1) else bm) uninitialised"
  have d0: "0 \<le> d p" using dd by simp
  have vol: "relative_volume p (d p) b = 1"
    using d0 m1 tf b by (rule relative_volume_ones)
  have "\<forall>i. 0 \<le> i \<and> i < d p \<longrightarrow> ?bm i = 1"
    using d0 dx b by (rule shifted_ones)
  then have vol': "relative_volume p (d p) ?bm = 1"
    using d0 m1 tf by (intro relative_volume_ones)
  have "shell_ratio p powi (2 * d p) = shell_ratio p ^ nat (2 * d p)"
    using dd by (simp add: power_int_def)
  moreover have "shell_ratio p ^ nat (2 * d p) < 1"
  proof -
    obtain k where "nat (2 * d p) = Suc k"
      using dd by (cases "nat (2 * d p)") simp_all
    then show ?thesis using dx by (simp add: power_Suc_less_one del: power_Suc)
  qed
  ultimately have "shell_ratio p powi (2 * d p) \<noteq> 1" by simp
  then show ?thesis
    unfolding svp_success_proba_def Let_def vol vol' [unfolded Let_def] by simp
qed

lemma load_basis_shape_2:
  assumes "load_basis_shape p0 2 g = Inr p"
  shows "n p = 2" "d p = 1" 
    "pv p 0 = sqrt (r p 0)" "pv p 1 = sqrt (r p 0) * sqrt (r p 1)"
    "renormalization_factor p = exp (- ((ln (g 1) + ln (g 0)) / 2))"
    "r p 0 = g 1 * renormalization_factor p" "r p 1 = g 0 * renormalization_factor p"
  using assms
  by (auto simp: load_basis_shape_def for_up.simps Let_def signed_divide_int_def)

lemma relative_volume_1:
  assumes "minus_one p = - 1" "b 0 \<noteq> 0"
  shows "relative_volume p 1 b = tabulated_factorial p 1"
  using assms
  by (simp add: relative_volume_def relative_volume_step_def integrate_poly_def eval_poly_def
      for_down.simps Let_def signed_modulo_int_def)

lemma cost_dim_2:
  assumes "d p = 1" "minus_one p = - 1" "tabulated_factorial p 1 = 1" "b 0 = 1"
  shows "cost p b =
     (sqrt (enumeration_radius p * renormalization_factor p) * tabulated_ball_vol p 1 / pv p 0 +
      (sqrt (enumeration_radius p * renormalization_factor p))\<^sup>2 * tabulated_ball_vol p 2 / pv p 1) /
     symmetry_factor p"
  using assms
  by (simp add: cost_def for_up.simps Let_def signed_divide_int_def relative_volume_1)

lemma loaded_pruner_2_shape:
  "r (loaded_pruner 2) 0 = 1" "r (loaded_pruner 2) 1 = 1" "renormalization_factor (loaded_pruner 2) = 1"
  "pv (loaded_pruner 2) 0 = 1" "pv (loaded_pruner 2) 1 = 1"
  using load_basis_shape_2 [OF loaded_pruner_ok [of 2]]
  by (simp_all add: ones_def signed_divide_int_def)

lemma ball_vol_1_2:
  "tabulated_ball_vol new_pruner 1 = 2" "tabulated_ball_vol new_pruner 2 = pi"
  by (simp_all add: new_pruner_tables pre_ball_vol_def eval_nat_numeral)

subsection \<open>Claims about the volume, the cost and the success probability\<close>

text \<open>
  C5: for every loaded basis (\<open>d \<ge> 1\<close>) and the all-ones compact vector (\<open>b[i] = 1\<close>
  for every \<open>i\<close> in \<open>[0, d)\<close>), \<open>svp_success_proba(b) = 1\<close> exactly:
  \<open>relative_volume(d, b)\<close> is 1, the shifted vector \<open>b_minus_db\<close> that the method
  builds equals \<open>b\<close> on \<open>[0, d)\<close>, and the shell quotient is 1. The Pruner is as its
  constructor leaves it: \<open>minus_one\<close> is \<open>-1\<close>, the shell ratio lies strictly between
  0 and 1 (it is 0.995), and the table entry \<open>tabulated_factorial[d]\<close> is \<open>d!\<close>.
\<close>

theorem svp_success_proba_all_ones:
  assumes "1 \<le> d p"
    and "minus_one p = - 1"
    and "tabulated_factorial p (d p) = fact (nat (d p))"
    and "0 < shell_ratio p" and "shell_ratio p < 1"
    and "\<forall>i. 0 \<le> i \<and> i < d p \<longrightarrow> b i = 1"
  shows "svp_success_proba p b = 1 \<and>
         relative_volume p (d p) b = 1 \<and>
         (\<forall>i. 0 \<le> i \<and> i < d p \<longrightarrow>
            for_up 0 (d p)
              (\<lambda>i bm. let bm = bm(i := b i / (shell_ratio p * shell_ratio p))
                       in if bm i > 1 then bm(i := 1) else bm) uninitialised i = b i)"
proof (intro conjI)
  show "svp_success_proba p b = 1"
    using assms by (rule svp_success_proba_ones)
  have d0: "0 \<le> d p" using assms(1) by simp
  then show "relative_volume p (d p) b = 1"
    using assms(2,3,6) by (rule relative_volume_ones)
  show "\<forall>i. 0 \<le> i \<and> i < d p \<longrightarrow>
            for_up 0 (d p)
              (\<lambda>i bm. let bm = bm(i := b i / (shell_ratio p * shell_ratio p))
                       in if bm i > 1 then bm(i := 1) else bm) uninitialised i = b i"
    using shifted_ones [OF d0 assms(4,5,6)] assms(6) by simp
qed

theorem svp_success_proba_all_ones_witness:
  "1 \<le> d (loaded_pruner 4) \<and> minus_one (loaded_pruner 4) = - 1 \<and>
   tabulated_factorial (loaded_pruner 4) (d (loaded_pruner 4)) = fact (nat (d (loaded_pruner 4))) \<and>
   0 < shell_ratio (loaded_pruner 4) \<and> shell_ratio (loaded_pruner 4) < 1 \<and>
   ones 0 = 1 \<and> ones 1 = 1 \<and>
   svp_success_proba (loaded_pruner 4) ones = 1 \<and>
   relative_volume (loaded_pruner 4) (d (loaded_pruner 4)) ones = 1"
proof -
  have h: "1 \<le> d (loaded_pruner 4)" "minus_one (loaded_pruner 4) = - 1"
    "tabulated_factorial (loaded_pruner 4) (d (loaded_pruner 4)) = fact (nat (d (loaded_pruner 4)))"
    "0 < shell_ratio (loaded_pruner 4)" "shell_ratio (loaded_pruner 4) < 1"
    by (simp_all add: loaded_pruner_fields signed_divide_int_def new_pruner_tables pre_factorial_def)
  have b: "\<forall>i. 0 \<le> i \<and> i < d (loaded_pruner 4) \<longrightarrow> ones i = 1"
    by (simp add: ones_def)
  from svp_success_proba_all_ones [OF h b] h show ?thesis
    by (simp add: ones_def)
qed

text \<open>
  C3 (as stated it fails): for \<open>n = 2\<close> the claim gives the cost
  \<open>\<surd>(radius \<sqdot> renorm) \<sqdot> unit_ball_volume[1] / \<surd>r[0]\<close>. With the basis shape \<open>[1, 1]\<close>,
  enumeration radius 4 and \<open>pr = [1, 1]\<close> that is 4, while \<open>get_enum_cost\<close> returns
  \<open>2 + 2 \<pi>\<close>: the sum over the levels has two terms, and the one of level 2 is
  missing from the claim.
\<close>

theorem cost_dimension_2_counterexample:
  "get_enum_cost pruner_radius_4 uninitialised ones \<noteq>
     Inr (sqrt (enumeration_radius pruner_radius_4 * renormalization_factor pruner_radius_4) *
          tabulated_ball_vol pruner_radius_4 1 / sqrt (r pruner_radius_4 0))"
proof -
  have d1: "d pruner_radius_4 = 1" "n pruner_radius_4 = 2"
    by (simp_all add: pruner_radius_4_def)
  have "\<And>i::int. 0 \<le> i \<and> i < 1 \<Longrightarrow> i = 0" by simp
  then have f: "feasible pruner_radius_4 (extracted pruner_radius_4 ones uninitialised)"
    by (auto simp: feasible_def extracted_def ones_def d1)
  have "enforce pruner_radius_4 (extracted pruner_radius_4 ones uninitialised) 0 =
      (extracted pruner_radius_4 ones uninitialised, 0)"
    using f by (intro enforce_fixed) (simp_all add: d1)
  then have "get_enum_cost pruner_radius_4 uninitialised ones =
      Inr (cost pruner_radius_4 (extracted pruner_radius_4 ones uninitialised))"
    by (simp add: get_enum_cost_def load_prunning_coeffs_eq d1)
  moreover have "cost pruner_radius_4 (extracted pruner_radius_4 ones uninitialised) = 2 + 2 * pi"
    by (subst cost_dim_2)
      (simp_all add: d1 extracted_def ones_def,
       simp_all add: pruner_radius_4_def loaded_pruner_fields loaded_pruner_2_shape ball_vol_1_2
         new_pruner_tables pre_factorial_def signed_divide_int_def)
  moreover have "2 + 2 * pi \<noteq> (4 :: real)"
    using pi_ge_two by simp
  ultimately show ?thesis
    by (simp add: pruner_radius_4_def loaded_pruner_fields loaded_pruner_2_shape ball_vol_1_2
        signed_divide_int_def)
qed

text \<open>
  C3, amended: for \<open>n = 2\<close> and any loaded \<open>r_raw\<close> (so \<open>d = 1\<close> and the compact vector
  is \<open>b = [1]\<close>, read from \<open>pr[1] = 1\<close>), \<open>get_enum_cost\<close> returns the sum of the two
  levels,
  \<open>R \<sqdot> unit_ball_volume[1] / \<surd>r[0] + R\<^sup>2 \<sqdot> unit_ball_volume[2] / (\<surd>r[0] \<sqdot> \<surd>r[1])\<close>
  with \<open>R = \<surd>(enumeration_radius \<sqdot> renormalization_factor)\<close>, divided by
  \<open>symmetry_factor\<close>. The Pruner is as its constructor leaves it: \<open>minus_one\<close> is \<open>-1\<close>
  and \<open>tabulated_factorial[1]\<close> is 1.
\<close>

theorem cost_dimension_2:
  assumes "load_basis_shape p0 2 gso_sq_norms = Inr p"
    and "minus_one p0 = - 1" and "tabulated_factorial p0 1 = 1"
    and "pr 1 = 1"
  shows "get_enum_cost p b0 pr =
     Inr ((sqrt (enumeration_radius p * renormalization_factor p) * tabulated_ball_vol p 1 /
             sqrt (r p 0) +
           (sqrt (enumeration_radius p * renormalization_factor p))\<^sup>2 * tabulated_ball_vol p 2 /
             (sqrt (r p 0) * sqrt (r p 1))) /
          symmetry_factor p)"
proof -
  note shape = load_basis_shape_2 [OF assms(1)]
  note fields = load_basis_shape_fields [OF assms(1)]
  have b0: "extracted p pr b0 0 = 1"
    using assms(4) shape(1,2) by (simp add: extracted_def)
  have "1 / 10 \<le> extracted p pr b0 i \<and> extracted p pr b0 i \<le> 1" if "0 \<le> i \<and> i < d p" for i
  proof -
    have "i = 0" using that shape(2) by simp
    then show ?thesis using b0 by simp
  qed
  then have f: "feasible p (extracted p pr b0)"
    using shape(2) b0 by (simp add: feasible_def)
  have "enforce p (extracted p pr b0) 0 = (extracted p pr b0, 0)"
    using f shape(2) by (intro enforce_fixed) simp_all
  then have "get_enum_cost p b0 pr = Inr (cost p (extracted p pr b0))"
    using shape(2) by (simp add: get_enum_cost_def load_prunning_coeffs_eq)
  moreover have "cost p (extracted p pr b0) =
     (sqrt (enumeration_radius p * renormalization_factor p) * tabulated_ball_vol p 1 / pv p 0 +
      (sqrt (enumeration_radius p * renormalization_factor p))\<^sup>2 * tabulated_ball_vol p 2 / pv p 1) /
     symmetry_factor p"
    using shape(2) assms(2,3) b0 by (intro cost_dim_2) (simp_all add: fields)
  ultimately show ?thesis
    by (simp add: shape(3,4))
qed

theorem cost_dimension_2_witness:
  "load_basis_shape (new_pruner\<lparr>enumeration_radius := 1\<rparr>) 2 ones = Inr (loaded_pruner 2) \<and>
   minus_one (new_pruner\<lparr>enumeration_radius := 1\<rparr>) = - 1 \<and>
   tabulated_factorial (new_pruner\<lparr>enumeration_radius := 1\<rparr>) 1 = 1 \<and>
   ones 1 = 1 \<and>
   get_enum_cost (loaded_pruner 2) uninitialised ones = Inr ((2 + pi) / 2)"
proof -
  have "(2::int) sdiv 2 \<noteq> 0" by (simp add: signed_divide_int_def)
  then have h1: "load_basis_shape (new_pruner\<lparr>enumeration_radius := 1\<rparr>) 2 ones = Inr (loaded_pruner 2)"
    by (rule loaded_pruner_ok)
  have h2: "minus_one (new_pruner\<lparr>enumeration_radius := 1\<rparr>) = - 1"
    "tabulated_factorial (new_pruner\<lparr>enumeration_radius := 1\<rparr>) 1 = 1"
    "ones 1 = 1"
    by (simp_all add: new_pruner_fields new_pruner_tables pre_factorial_def ones_def)
  note h = h1 h2
  from cost_dimension_2 [OF h1 h2(1,2), where pr = ones and ?b0.0 = uninitialised] h show ?thesis
    by (simp add: loaded_pruner_fields loaded_pruner_2_shape ball_vol_1_2 signed_divide_int_def)
qed

subsection \<open>The descent\<close>

lemma improve_loop_decreases:
  assumes "improve_loop p gradient i newb b cf step = Some y"
    and "cf = cost_factor p b"
  shows "snd (snd y) = cost_factor p (fst (snd y)) \<and>
         ((fst (snd y) = b \<and> snd (snd y) = cf) \<or> snd (snd y) < cf)"
proof -
  let ?P = "\<lambda>(p :: Pruner) (gradient :: evec) (i :: int) (newb :: evec) (b :: evec)
              (cf :: real) (step :: real) (y :: int \<times> evec \<times> real).
      cf = cost_factor p b \<longrightarrow>
      snd (snd y) = cost_factor p (fst (snd y)) \<and>
      ((fst (snd y) = b \<and> snd (snd y) = cf) \<or> snd (snd y) < cf)"
  have "?P p gradient i newb b cf step y"
  proof (rule improve_loop.raw_induct [where P = ?P, OF _ assms(1)])
    fix improve_loop' :: "Pruner \<Rightarrow> evec \<Rightarrow> int \<Rightarrow> evec \<Rightarrow> evec \<Rightarrow> real \<Rightarrow> real
        \<Rightarrow> (int \<times> evec \<times> real) option"
      and p gradient i newb b cf step y
    assume IH: "\<And>p gradient i newb b cf step y.
        improve_loop' p gradient i newb b cf step = Some y \<Longrightarrow> ?P p gradient i newb b cf step y"
      and body: "(let newb = for_up 0 (d p) (\<lambda>i newb. newb(i := newb i + step * gradient i)) newb;
                      newb = fst (enforce p newb 0);
                      new_cf = cost_factor p newb
                  in if new_cf \<ge> cf then Some (i, b, cf)
                     else improve_loop' p gradient (i + 1) newb newb new_cf (step * step_factor p)) =
                 Some y"
    define newb' where "newb' = fst (enforce p
        (for_up 0 (d p) (\<lambda>i newb. newb(i := newb i + step * gradient i)) newb) 0)"
    have body': "(if cost_factor p newb' \<ge> cf then Some (i, b, cf)
                  else improve_loop' p gradient (i + 1) newb' newb' (cost_factor p newb')
                         (step * step_factor p)) = Some y"
      using body unfolding Let_def newb'_def .
    show "?P p gradient i newb b cf step y"
    proof (cases "cost_factor p newb' \<ge> cf")
      case True
      then have "y = (i, b, cf)" using body' by simp
      then show ?thesis by simp
    next
      case False
      then have rec: "improve_loop' p gradient (i + 1) newb' newb' (cost_factor p newb')
          (step * step_factor p) = Some y"
        using body' by simp
      have "?P p gradient (i + 1) newb' newb' (cost_factor p newb') (step * step_factor p) y"
        using rec by (rule IH)
      then have "snd (snd y) = cost_factor p (fst (snd y)) \<and>
          ((fst (snd y) = newb' \<and> snd (snd y) = cost_factor p newb') \<or>
           snd (snd y) < cost_factor p newb')"
        by blast
      then show ?thesis using False by auto
    qed
  qed
  then show ?thesis using assms(2) by blast
qed

lemma improve_decreases:
  assumes "improve p b = Some (b', k)"
  shows "cost_factor p b' \<le> cost_factor p b \<and> (b' \<noteq> b \<longrightarrow> cost_factor p b' < cost_factor p b)"
proof -
  define gradient where "gradient = cost_factor_derivative p b uninitialised"
  define s where "s = for_up 0 (d p)
      (\<lambda>i (norm, newb). (norm + gradient i * gradient i, newb(i := b i))) (0, uninitialised)"
  define norm where "norm = sqrt (fst s / (one p * (1 * real_of_int (d p))))"
  define g where "g = for_up 0 (d p) (\<lambda>i g. g(i := g i / norm)) gradient"
  have unf: "improve p b =
     (if norm \<le> 0 then Some (b, 0)
      else case improve_loop p g 0 (snd s) b (cost_factor p b) (min_step p) of
             None \<Rightarrow> None
           | Some (i, b', cf) \<Rightarrow>
               if cf > cost_factor p b * min_cf_decrease p then Some (b', 0) else Some (b', i))"
    by (simp add: improve_def Let_def case_prod_beta gradient_def s_def norm_def g_def)
  show ?thesis
  proof (cases "norm \<le> 0")
    case True
    then show ?thesis using assms unf by simp
  next
    case False
    then obtain i cf where loop: "improve_loop p g 0 (snd s) b (cost_factor p b) (min_step p) = Some (i, b', cf)"
      using assms unf by (auto split: option.splits if_splits)
    from improve_loop_decreases [OF loop] show ?thesis by auto
  qed
qed

lemma descent_decreases:
  assumes "descent p b = Some b'"
  shows "cost_factor p b' \<le> cost_factor p b"
proof (rule descent.raw_induct [where P = "\<lambda>p b b'. cost_factor p b' \<le> cost_factor p b", OF _ assms])
  fix descent' :: "Pruner \<Rightarrow> evec \<Rightarrow> evec option" and p b b'
  assume IH: "\<And>p b b'. descent' p b = Some b' \<Longrightarrow> cost_factor p b' \<le> cost_factor p b"
    and body: "(case improve p b of None \<Rightarrow> None
                | Some (b, k) \<Rightarrow> if k \<noteq> 0 then descent' p b else Some b) = Some b'"
  from body obtain b1 k where imp: "improve p b = Some (b1, k)"
    and rest: "(if k \<noteq> 0 then descent' p b1 else Some b1) = Some b'"
    by (auto split: option.splits)
  have le: "cost_factor p b1 \<le> cost_factor p b"
    using improve_decreases [OF imp] by simp
  show "cost_factor p b' \<le> cost_factor p b"
  proof (cases "k \<noteq> 0")
    case True
    then have "descent' p b1 = Some b'" using rest by simp
    then have "cost_factor p b' \<le> cost_factor p b1" by (rule IH)
    then show ?thesis using le by simp
  next
    case False
    then show ?thesis using rest le by simp
  qed
qed

lemma improve_unfold:
  "improve p b =
     (let gradient = cost_factor_derivative p b uninitialised;
          s = for_up 0 (d p)
                (\<lambda>i (norm, newb). (norm + gradient i * gradient i, newb(i := b i)))
                (0, uninitialised);
          norm = sqrt (fst s / (one p * (1 * real_of_int (d p))))
      in if norm \<le> 0 then Some (b, 0)
         else case improve_loop p (for_up 0 (d p) (\<lambda>i g. g(i := g i / norm)) gradient)
                     0 (snd s) b (cost_factor p b) (min_step p) of
                None \<Rightarrow> None
              | Some (i, b', cf) \<Rightarrow>
                  if cf > cost_factor p b * min_cf_decrease p then Some (b', 0) else Some (b', i))"
  unfolding improve_def Let_def case_prod_beta ..

lemma improve_dim_2:
  assumes "d p = 1"
  shows "improve p b = Some (b, 0)"
proof -
  have g: "cost_factor_derivative p b uninitialised 0 = 0"
    by (simp add: cost_factor_derivative_def assms for_up.simps [of 0 0])
  have "fst (for_up 0 1
            (\<lambda>i (norm, newb). (norm + cost_factor_derivative p b uninitialised i *
                                        cost_factor_derivative p b uninitialised i, newb(i := b i)))
            (0, uninitialised)) = 0"
    by (simp add: for_up.simps [of 0 1] for_up.simps [of 1 1] g)
  then show ?thesis
    unfolding improve_unfold Let_def assms by simp
qed

lemma descent_dim_2:
  assumes "d p = 1"
  shows "descent p b = Some b"
  by (subst descent.simps) (simp add: improve_dim_2 [OF assms])

subsection \<open>A run of the descent\<close>

lemma toy_fields [simp]:
  "d toy_pruner = 2" "one toy_pruner = 1" "epsilon toy_pruner = 1 / 2"
  "min_step toy_pruner = 1" "step_factor toy_pruner = 1" "min_cf_decrease toy_pruner = 1"
  by (simp_all add: toy_pruner_def)

lemma toy_relative_volume: "relative_volume toy_pruner rd b = 0"
  by (simp add: relative_volume_def Let_def case_prod_beta toy_pruner_def uninitialised_def)

lemma toy_svp: "svp_success_proba toy_pruner b = 0"
  unfolding svp_success_proba_def Let_def toy_relative_volume by simp

lemma toy_cost: "cost toy_pruner b = sqrt (b 0)"
proof -
  have rv: "for_up 0 2 (\<lambda>i rv. rv(2 * i + 1 := relative_volume toy_pruner (i + 1) b)) uninitialised =
      uninitialised(1 := 0, 3 := 0)"
    by (simp add: for_up.simps [of 0 2] for_up.simps [of 1 2] for_up.simps [of 2 2] toy_relative_volume)
  have rv2: "for_up 1 2 (\<lambda>i rv. rv(2 * i := sqrt (rv (2 * i - 1) * rv (2 * i + 1))))
        (uninitialised(1 := 0, 3 := 0, 0 := 1)) = uninitialised(1 := 0, 3 := 0, 0 := 1, 2 := 0)"
    by (simp add: for_up.simps [of 1 2] for_up.simps [of 2 2])
  have tot: "for_up 0 4 (\<lambda>i total. total +
          1 powi (1 + i) * (uninitialised(1 := 0, 3 := 0, 0 := 1, 2 := 0)) i * ones (i + 1) *
          sqrt (b (i sdiv 2) powi (1 + i)) / ones i) 0 = sqrt (b 0)"
    by (simp add: for_up.simps [of 0 4] for_up.simps [of 1 4] for_up.simps [of 2 4]
        for_up.simps [of 3 4] for_up.simps [of 4 4] ones_def)
  have "cost toy_pruner b =
      for_up 0 4 (\<lambda>i total. total +
          1 powi (1 + i) * (uninitialised(1 := 0, 3 := 0, 0 := 1, 2 := 0)) i * ones (i + 1) *
          sqrt (b (i sdiv 2) powi (1 + i)) / ones i) 0"
    unfolding cost_def Let_def toy_fields rv by (simp add: rv2 toy_pruner_def)
  then show ?thesis using tot by simp
qed

lemma toy_cost_factor: "cost_factor toy_pruner b = sqrt (b 0)"
  unfolding cost_factor_def Let_def toy_svp toy_cost by (simp add: toy_pruner_def)

lemma toy_enforce:
  assumes "b 1 = 1"
  shows "enforce toy_pruner b 0 = (b(0 := clampv (b 0)), if b 0 > 1 then 1 else 0)"
proof -
  have pin: "b(1 := 1) = b" using assms by auto
  have two: "0 \<le> m \<and> m < 2 \<longleftrightarrow> m = 0 \<or> m = 1" for m :: int by auto
  have pc: "pinned_clamped toy_pruner b = b(0 := clampv (b 0))"
    using assms by (auto simp: pinned_clamped_def pin two fun_eq_iff clampv_def)
  have "(\<exists>m. 0 \<le> m \<and> m < 2 \<and> 1 < b m) \<longleftrightarrow> 1 < b 0"
  proof
    assume "\<exists>m. 0 \<le> m \<and> m < 2 \<and> 1 < b m"
    then obtain m where m: "0 \<le> m" "m < 2" "1 < b m" by blast
    then have "m = 0 \<or> m = 1" by linarith
    then show "1 < b 0" using m(3) assms by auto
  next
    assume "1 < b 0"
    then show "\<exists>m. 0 \<le> m \<and> m < 2 \<and> 1 < b m" by (intro exI [of _ 0]) simp
  qed
  then have st: "pinned_status toy_pruner b = (if b 0 > 1 then 1 else 0)"
    using assms by (simp add: pinned_status_def pin)
  have le: "clampv (b 0) \<le> 1" by (rule clampv_bounds)
  have right: "for_up 0 1 enforce_right (b(0 := clampv (b 0)), st') = (b(0 := clampv (b 0)), st')" for st'
    using le assms by (simp add: for_up.simps [of 0] for_up.simps [of 1] enforce_right_def)
  have left: "for_down (- 1) 0 enforce_left t = t" for t :: "evec \<times> int"
    by (simp add: for_down.simps [of "- 1"])
  show ?thesis
    by (simp add: enforce_unfold pc st right left)
qed


lemma toy_gradient:
  assumes b1: "b 1 = 1" and b0: "1 / 10 \<le> b 0" "b 0 \<le> 4 / 10"
  shows "cost_factor_derivative toy_pruner b res 1 = 0"
    and "cost_factor_derivative toy_pruner b res 0 < 0"
proof -
  let ?lo = "b(0 := b 0 * (1 - 1 / 2))"
  let ?hi = "b(0 := b 0 * (1 + 1 / 2))"
  let ?G = "(ln (cost_factor toy_pruner (fst (enforce toy_pruner ?lo 0))) -
             ln (cost_factor toy_pruner (fst (enforce toy_pruner ?hi 0)))) / (1 / 2)"
  have unf: "cost_factor_derivative toy_pruner b res = (res(1 := 0))(0 := ?G)"
    unfolding cost_factor_derivative_def Let_def toy_fields
    by (simp add: for_up.simps [of 0 1] for_up.simps [of 1 1])
  have lo: "fst (enforce toy_pruner ?lo 0) 0 = clampv (b 0 / 2)"
    using b1 by (simp add: toy_enforce)
  have hi: "fst (enforce toy_pruner ?hi 0) 0 = clampv (b 0 * 3 / 2)"
    using b1 by (simp add: toy_enforce algebra_simps)
  have pos: "0 < clampv (b 0 / 2)"
    using clampv_bounds(1) [of "b 0 / 2"] by simp
  have "clampv (b 0 / 2) < clampv (b 0 * 3 / 2)"
    using b0 by (auto simp: clampv_def)
  then have "sqrt (clampv (b 0 / 2)) < sqrt (clampv (b 0 * 3 / 2))"
    by simp
  moreover have "0 < sqrt (clampv (b 0 / 2))" using pos by simp
  ultimately have "ln (sqrt (clampv (b 0 / 2))) < ln (sqrt (clampv (b 0 * 3 / 2)))"
    by (subst ln_less_cancel_iff) simp_all
  then have "?G < 0"
    unfolding toy_cost_factor lo hi by simp
  then show "cost_factor_derivative toy_pruner b res 0 < 0"
    unfolding unf by simp
  show "cost_factor_derivative toy_pruner b res 1 = 0"
    unfolding unf by simp
qed


lemma toy_direction:
  assumes b1: "b 1 = 1" and b0: "1 / 10 \<le> b 0" "b 0 \<le> 4 / 10"
    and gradient: "gradient = cost_factor_derivative toy_pruner b uninitialised"
    and s: "s = for_up 0 2
      (\<lambda>i (acc, newb). (acc + gradient i * gradient i, newb(i := b i))) (0, uninitialised)"
    and nrm: "nrm = sqrt (fst s / (1 * (1 * real_of_int 2)))"
    and g: "g = for_up 0 2 (\<lambda>i g. g(i := g i / nrm)) gradient"
  shows "0 < nrm" and "g 0 = - sqrt 2" and "g 1 = 0" and "snd s = uninitialised(0 := b 0, 1 := 1)"
proof -
  have G: "gradient 0 < 0" "gradient 1 = 0"
    unfolding gradient using toy_gradient [OF b1 b0] by simp_all
  have s': "s = (gradient 0 * gradient 0, uninitialised(0 := b 0, 1 := 1))"
    unfolding s
    by (simp add: for_up.simps [of 0 2] for_up.simps [of 1 2] for_up.simps [of 2 2] G(2) b1)
  have "nrm = sqrt (gradient 0 * gradient 0 / 2)"
    unfolding nrm s' by simp
  also have "\<dots> = \<bar>gradient 0\<bar> / sqrt 2"
    by (simp add: real_sqrt_divide)
  finally have nrm': "nrm = - gradient 0 / sqrt 2"
    using G(1) by simp
  have "gradient 0 / sqrt 2 < 0"
    using G(1) by (intro divide_neg_pos) simp_all
  then show "0 < nrm" unfolding nrm' by simp
  have g': "g = (gradient(0 := gradient 0 / nrm))(1 := gradient 1 / nrm)"
    unfolding g
    by (simp add: for_up.simps [of 0 2] for_up.simps [of 1 2] for_up.simps [of 2 2])
  show "g 1 = 0" unfolding g' using G(2) by simp
  have "gradient 0 / nrm = - sqrt 2"
    unfolding nrm' using G(1) by (simp add: field_simps)
  then show "g 0 = - sqrt 2" unfolding g' by simp
  show "snd s = uninitialised(0 := b 0, 1 := 1)" unfolding s' by simp
qed

lemma toy_move:
  assumes g: "g 0 = - sqrt 2" "g 1 = 0" and nb: "nb 1 = 1" "nb 0 \<le> 1"
  shows "fst (enforce toy_pruner
             (for_up 0 (d toy_pruner) (\<lambda>i newb. newb(i := newb i + 1 * g i)) nb) 0) = nb(0 := 1 / 10)"
proof -
  have "sqrt 2 > 1" by simp
  then have low: "nb 0 - sqrt 2 \<le> 1 / 10" using nb(2) by linarith
  have upd: "for_up 0 (d toy_pruner) (\<lambda>i newb. newb(i := newb i + 1 * g i)) nb = nb(0 := nb 0 - sqrt 2)"
    unfolding toy_fields
    using g nb(1)
    by (simp add: for_up.simps [of 0 2] for_up.simps [of 1 2] for_up.simps [of 2 2] fun_eq_iff)
  have c: "clampv (nb 0 - sqrt 2) = 1 / 10"
    using low by (simp add: clampv_def)
  show ?thesis
    unfolding upd using nb(1) by (simp add: toy_enforce c)
qed

lemma toy_loop_stop:
  assumes g: "g 0 = - sqrt 2" "g 1 = 0" and nb: "nb 1 = 1" "nb 0 \<le> 1"
    and cf: "cf \<le> sqrt (1 / 10)"
  shows "improve_loop toy_pruner g i nb b cf 1 = Some (i, b, cf)"
  by (subst improve_loop.simps)
    (simp only: Let_def toy_move [OF g nb] toy_cost_factor fun_upd_same cf if_True)

lemma toy_loop_go:
  assumes g: "g 0 = - sqrt 2" "g 1 = 0" and nb: "nb 1 = 1" "nb 0 \<le> 1"
    and cf: "sqrt (1 / 10) < cf"
  shows "improve_loop toy_pruner g i nb b cf 1 =
         improve_loop toy_pruner g (i + 1) (nb(0 := 1 / 10)) (nb(0 := 1 / 10)) (sqrt (1 / 10)) 1"
proof -
  have "\<not> cf \<le> sqrt (1 / 10)" using cf by simp
  then show ?thesis
    by (subst improve_loop.simps)
      (simp only: Let_def toy_move [OF g nb] toy_cost_factor fun_upd_same if_False,
       simp)
qed


lemma toy_improve:
  assumes b1: "b 1 = 1" and b0: "1 / 10 \<le> b 0" "b 0 \<le> 4 / 10"
  shows "\<exists>g. g 0 = - sqrt 2 \<and> g 1 = 0 \<and>
     improve toy_pruner b =
       (case improve_loop toy_pruner g 0 (uninitialised(0 := b 0, 1 := 1)) b (sqrt (b 0)) 1 of
          None \<Rightarrow> None
        | Some (i, b', cf) \<Rightarrow> if cf > sqrt (b 0) * 1 then Some (b', 0) else Some (b', i))"
proof -
  define gradient where "gradient = cost_factor_derivative toy_pruner b uninitialised"
  define s where "s = for_up 0 2
      (\<lambda>i (acc, newb). (acc + gradient i * gradient i, newb(i := b i))) (0, uninitialised)"
  define nrm where "nrm = sqrt (fst s / (1 * (1 * real_of_int 2)))"
  define g where "g = for_up 0 2 (\<lambda>i g. g(i := g i / nrm)) gradient"
  note dir = toy_direction [OF b1 b0 gradient_def s_def nrm_def g_def]
  have nz: "\<not> nrm \<le> 0" using dir(1) by simp
  have "improve toy_pruner b =
      (if nrm \<le> 0 then Some (b, 0)
       else case improve_loop toy_pruner g 0 (snd s) b (sqrt (b 0)) 1 of
          None \<Rightarrow> None
        | Some (i, b', cf) \<Rightarrow> if cf > sqrt (b 0) * 1 then Some (b', 0) else Some (b', i))"
    unfolding improve_unfold Let_def toy_fields toy_cost_factor
      gradient_def [symmetric] s_def [symmetric] nrm_def [symmetric] g_def [symmetric] ..
  then have "improve toy_pruner b =
      (case improve_loop toy_pruner g 0 (uninitialised(0 := b 0, 1 := 1)) b (sqrt (b 0)) 1 of
          None \<Rightarrow> None
        | Some (i, b', cf) \<Rightarrow> if cf > sqrt (b 0) * 1 then Some (b', 0) else Some (b', i))"
    unfolding if_not_P [OF nz] dir(4) .
  then show ?thesis using dir(2,3) by blast
qed

lemma toy_improve_start: "improve toy_pruner b_start = Some (b_end, 1)"
proof -
  have b: "b_start 1 = 1" "1 / 10 \<le> b_start 0" "b_start 0 \<le> 4 / 10" "b_start 0 = 4 / 10"
    by (simp_all add: b_start_def)
  from toy_improve [OF b(1-3)] obtain g where g: "g 0 = - sqrt 2" "g 1 = 0"
    and imp: "improve toy_pruner b_start =
       (case improve_loop toy_pruner g 0 (uninitialised(0 := b_start 0, 1 := 1)) b_start
               (sqrt (b_start 0)) 1 of
          None \<Rightarrow> None
        | Some (i, b', cf) \<Rightarrow> if cf > sqrt (b_start 0) * 1 then Some (b', 0) else Some (b', i))"
    by blast
  have nb: "uninitialised(0 := 4 / 10, 1 := 1) = b_start"
    by (simp add: b_start_def)
  have e: "b_start(0 := 1 / 10) = b_end"
    by (auto simp: b_start_def b_end_def fun_eq_iff)
  have lt: "sqrt (1 / 10) < sqrt (4 / 10)"
    by (subst real_sqrt_less_iff) simp
  have "improve_loop toy_pruner g 0 b_start b_start (sqrt (4 / 10)) 1 =
        improve_loop toy_pruner g (0 + 1) b_end b_end (sqrt (1 / 10)) 1"
    using toy_loop_go [where g = g and nb = b_start and cf = "sqrt (4 / 10)" and i = 0 and b = b_start]
      g lt b by (simp add: e)
  also have "\<dots> = Some (0 + 1, b_end, sqrt (1 / 10))"
    by (rule toy_loop_stop [OF g]) (simp_all add: b_end_def)
  finally have "improve_loop toy_pruner g 0 b_start b_start (sqrt (4 / 10)) 1 =
      Some (1, b_end, sqrt (1 / 10))"
    by simp
  then show ?thesis
    unfolding imp b(4) nb using lt by simp
qed

lemma toy_improve_end: "improve toy_pruner b_end = Some (b_end, 0)"
proof -
  have b: "b_end 1 = 1" "1 / 10 \<le> b_end 0" "b_end 0 \<le> 4 / 10" "b_end 0 = 1 / 10"
    by (simp_all add: b_end_def)
  from toy_improve [OF b(1-3)] obtain g where g: "g 0 = - sqrt 2" "g 1 = 0"
    and imp: "improve toy_pruner b_end =
       (case improve_loop toy_pruner g 0 (uninitialised(0 := b_end 0, 1 := 1)) b_end
               (sqrt (b_end 0)) 1 of
          None \<Rightarrow> None
        | Some (i, b', cf) \<Rightarrow> if cf > sqrt (b_end 0) * 1 then Some (b', 0) else Some (b', i))"
    by blast
  have nb: "uninitialised(0 := 1 / 10, 1 := 1) = b_end"
    by (simp add: b_end_def)
  have "improve_loop toy_pruner g 0 b_end b_end (sqrt (1 / 10)) 1 = Some (0, b_end, sqrt (1 / 10))"
    by (rule toy_loop_stop [OF g]) (simp_all add: b_end_def)
  then show ?thesis
    unfolding imp b(4) nb by simp
qed

lemma toy_descent: "descent toy_pruner b_start = Some b_end"
proof -
  have "descent toy_pruner b_end = Some b_end"
    by (subst descent.simps) (simp add: toy_improve_end)
  then show ?thesis
    by (subst descent.simps) (simp add: toy_improve_start)
qed

subsection \<open>Claim about the descent\<close>

text \<open>
  C7: the descent is monotone in the objective. Every call \<open>improve(b)\<close> that returns
  leaves a vector whose \<open>cost_factor\<close> is at most that of the vector it received, and
  \<open>b\<close> is only replaced by a candidate whose \<open>cost_factor\<close> is strictly smaller; hence
  the \<open>cost_factor\<close> of the vector that \<open>descent(b)\<close> returns is at most the initial
  one. This holds for every Pruner and every starting vector, the feasible ones
  included.
\<close>

theorem descent_never_increases_cost_factor:
  "(improve p b = Some (b', k) \<longrightarrow>
      cost_factor p b' \<le> cost_factor p b \<and> (b' \<noteq> b \<longrightarrow> cost_factor p b' < cost_factor p b)) \<and>
   (descent p b = Some b'' \<longrightarrow> cost_factor p b'' \<le> cost_factor p b)"
  using improve_decreases [of p b b' k] descent_decreases [of p b b''] by blast

theorem descent_never_increases_cost_factor_witness:
  "improve toy_pruner b_start = Some (b_end, 1) \<and> b_end \<noteq> b_start \<and>
   cost_factor toy_pruner b_end < cost_factor toy_pruner b_start \<and>
   descent toy_pruner b_start = Some b_end \<and>
   cost_factor toy_pruner b_end \<le> cost_factor toy_pruner b_start \<and>
   improve (loaded_pruner 2) ones = Some (ones, 0) \<and>
   descent (loaded_pruner 2) ones = Some ones"
proof -
  have ne: "b_end \<noteq> b_start"
    by (auto simp: b_end_def b_start_def fun_eq_iff)
  from descent_never_increases_cost_factor [of toy_pruner b_start b_end 1 b_end]
    descent_never_increases_cost_factor [of "loaded_pruner 2" ones ones 0 ones]
    toy_improve_start toy_descent ne
  show ?thesis
    by (simp add: improve_dim_2 descent_dim_2)
qed

end
